theory Spec2Isabelle
  imports Complex_Main
begin

section \<open>Bounds-checked arrays (Array.inl)\<close>

text \<open>
  An \<open>Array<C>\<close> is a pointer \<open>data\<close> together with the window \<open>[min, max)\<close> of the
  indices that may be applied to it. Addresses are counted in elements of type \<open>C\<close>.
  The fields \<open>min\<close> and \<open>max\<close> are \<open>long long\<close>; arithmetic on them that leaves the
  64-bit signed range is undefined in C++, and is the value \<open>None\<close> of the operators
  below.
\<close>

record Array =
  data :: int
  amin :: int
  amax :: int

datatype array_error = OutOfBounds

definition in_long_long :: "int \<Rightarrow> bool" where
  "in_long_long v = (- (2 ^ 63) \<le> v \<and> v < 2 ^ 63)"

text \<open>\<open>Array::New(size)\<close> and \<open>Array::Alloc(size, clear)\<close>: the allocator returns the
  address \<open>base\<close>; the window is \<open>[0, size)\<close>.\<close>

definition New :: "int \<Rightarrow> nat \<Rightarrow> Array" where
  "New base sz = \<lparr>data = base, amin = 0, amax = int sz\<rparr>"

definition minimum :: "Array \<Rightarrow> int" where
  "minimum a = amin a"

definition maximum :: "Array \<Rightarrow> int" where
  "maximum a = amax a"

text \<open>\<open>_assertBounds(idx)\<close>: prints the diagnostic and leaves the process (\<open>ASSERT(0);
  exit(0)\<close>) when \<open>idx < min || idx >= max\<close>.\<close>

definition assertBounds :: "Array \<Rightarrow> int \<Rightarrow> array_error + unit" where
  "assertBounds a idx = (if idx < amin a \<or> idx \<ge> amax a then Inl OutOfBounds else Inr ())"

text \<open>\<open>operator[](idx)\<close>: the bounds check, then \<open>data[idx]\<close>; the result is the address
  of the element that is read or written.\<close>

definition index :: "Array \<Rightarrow> int \<Rightarrow> array_error + int" where
  "index a idx = (case assertBounds a idx of Inl e \<Rightarrow> Inl e | Inr _ \<Rightarrow> Inr (data a + idx))"

text \<open>\<open>operator+(idx)\<close> and \<open>operator+=(idx)\<close> compute the same three fields (the first
  in a copy, the second in place).\<close>

definition plus_Array :: "Array \<Rightarrow> int \<Rightarrow> Array option" where
  "plus_Array a idx =
     (if in_long_long (amin a - idx) \<and> in_long_long (amax a - idx)
      then Some \<lparr>data = data a + idx, amin = amin a - idx, amax = amax a - idx\<rparr>
      else None)"

text \<open>A sequence of shifts applied one after the other.\<close>

fun shifts :: "Array \<Rightarrow> int list \<Rightarrow> Array option" where
  "shifts a [] = Some a"
| "shifts a (k # ks) = (case plus_Array a k of None \<Rightarrow> None | Some a' \<Rightarrow> shifts a' ks)"

text \<open>The addresses the recorded bounds stand for.\<close>

definition first_address :: "Array \<Rightarrow> int" where
  "first_address a = data a + amin a"

definition end_address :: "Array \<Rightarrow> int" where
  "end_address a = data a + amax a"

lemma plus_Array_first: "plus_Array a k = Some a' \<Longrightarrow> first_address a' = first_address a"
  by (auto simp: plus_Array_def first_address_def split: if_splits)

lemma plus_Array_end: "plus_Array a k = Some a' \<Longrightarrow> end_address a' = end_address a"
  by (auto simp: plus_Array_def end_address_def split: if_splits)

lemma shifts_first: "shifts a ks = Some a' \<Longrightarrow> first_address a' = first_address a"
proof (induction ks arbitrary: a)
  case Nil
  then show ?case by simp
next
  case (Cons k ks)
  then obtain b where b: "plus_Array a k = Some b" and r: "shifts b ks = Some a'"
    by (auto split: option.splits)
  from Cons.IH [OF r] plus_Array_first [OF b] show ?case by simp
qed

lemma shifts_end: "shifts a ks = Some a' \<Longrightarrow> end_address a' = end_address a"
proof (induction ks arbitrary: a)
  case Nil
  then show ?case by simp
next
  case (Cons k ks)
  then obtain b where b: "plus_Array a k = Some b" and r: "shifts b ks = Some a'"
    by (auto split: option.splits)
  from Cons.IH [OF r] plus_Array_end [OF b] show ?case by simp
qed

lemma index_cases:
  "index a idx = (if minimum a \<le> idx \<and> idx < maximum a then Inr (data a + idx) else Inl OutOfBounds)"
  by (auto simp: index_def assertBounds_def minimum_def maximum_def)

text \<open>
  C10. An access \<open>a[idx]\<close> yields an element exactly when \<open>minimum() \<le> idx < maximum()\<close>
  and otherwise ends in the out-of-bounds report; and after any sequence of shifts by
  \<open>+\<close> and \<open>+=\<close> of a freshly allocated array of \<open>size\<close> elements at \<open>base\<close>, every
  address an access yields lies inside the allocation \<open>[base, base + size)\<close>.
\<close>

theorem Array_index_in_bounds:
  "(index a idx = (if minimum a \<le> idx \<and> idx < maximum a then Inr (data a + idx) else Inl OutOfBounds))
   \<and> (shifts (New base sz) ks = Some a' \<longrightarrow> index a' idx = Inr addr \<longrightarrow>
        base \<le> addr \<and> addr < base + int sz)"
proof (rule conjI)
  show "index a idx = (if minimum a \<le> idx \<and> idx < maximum a then Inr (data a + idx) else Inl OutOfBounds)"
    by (rule index_cases)
next
  show "shifts (New base sz) ks = Some a' \<longrightarrow> index a' idx = Inr addr \<longrightarrow>
        base \<le> addr \<and> addr < base + int sz"
  proof (intro impI)
  assume s: "shifts (New base sz) ks = Some a'" and i: "index a' idx = Inr addr"
  from shifts_first [OF s] have f: "data a' + amin a' = base"
    by (simp add: first_address_def New_def)
  from shifts_end [OF s] have e: "data a' + amax a' = base + int sz"
    by (simp add: end_address_def New_def)
  from i have "amin a' \<le> idx" "idx < amax a'" "addr = data a' + idx"
    by (auto simp: index_cases minimum_def maximum_def split: if_splits)
  with f e show "base \<le> addr \<and> addr < base + int sz" by linarith
  qed
qed

theorem Array_index_in_bounds_witness:
  "shifts (New 1000 4) [3, -1] = Some \<lparr>data = 1002, amin = -2, amax = 2\<rparr>
   \<and> index \<lparr>data = 1002, amin = -2, amax = 2\<rparr> 1 = Inr 1003
   \<and> index \<lparr>data = 1002, amin = -2, amax = 2\<rparr> 2 = Inl OutOfBounds
   \<and> (1000::int) \<le> 1003 \<and> (1003::int) < 1000 + int 4"
proof -
  have s: "shifts (New 1000 4) [3, -1] = Some \<lparr>data = 1002, amin = -2, amax = 2\<rparr>"
    by (simp add: New_def plus_Array_def in_long_long_def)
  have i: "index \<lparr>data = 1002, amin = -2, amax = 2\<rparr> 1 = Inr 1003"
    by (simp add: index_def assertBounds_def)
  have o: "index \<lparr>data = 1002, amin = -2, amax = 2\<rparr> 2 = Inl OutOfBounds"
    by (simp add: index_def assertBounds_def)
  from Array_index_in_bounds [of "\<lparr>data = 1002, amin = -2, amax = 2\<rparr>" 1 1000 4 "[3, -1]"
      "\<lparr>data = 1002, amin = -2, amax = 2\<rparr>" 1003] s i o
  show ?thesis by simp
qed

section \<open>Sparse symmetric matrices (SparseMatrix.inl)\<close>

record MatrixEntry =
  N :: nat
  Value :: real

type_synonym Vector = "real list"

type_synonym SparseSymmetricMatrix = "MatrixEntry list list"

definition Rows :: "SparseSymmetricMatrix \<Rightarrow> nat" where
  "Rows m = length m"

definition Vector :: "nat \<Rightarrow> Vector" where
  "Vector n = replicate n 0"

definition add_at :: "Vector \<Rightarrow> nat \<Rightarrow> real \<Rightarrow> Vector" where
  "add_at xs i v = xs[i := xs ! i + v]"

fun row_loop :: "(nat \<Rightarrow> MatrixEntry list \<Rightarrow> 'a \<Rightarrow> 'a) \<Rightarrow> nat \<Rightarrow> SparseSymmetricMatrix \<Rightarrow> 'a \<Rightarrow> 'a" where
  "row_loop body i [] s = s"
| "row_loop body i (row # rows) s = row_loop body (Suc i) rows (body i row s)"

definition times_entry :: "Vector \<Rightarrow> nat \<Rightarrow> MatrixEntry \<Rightarrow> Vector \<Rightarrow> Vector" where
  "times_entry V i e R = add_at (add_at R i (Value e * V ! N e)) (N e) (Value e * V ! i)"

definition times_row :: "Vector \<Rightarrow> nat \<Rightarrow> MatrixEntry list \<Rightarrow> Vector \<Rightarrow> Vector" where
  "times_row V i row R = fold (times_entry V i) row R"

definition operator_times :: "SparseSymmetricMatrix \<Rightarrow> Vector \<Rightarrow> Vector" where
  "operator_times m V = row_loop (times_row V) 0 m (Vector (Rows m))"

definition acc_entry :: "Vector \<Rightarrow> nat \<Rightarrow> MatrixEntry \<Rightarrow> real \<times> Vector \<Rightarrow> real \<times> Vector" where
  "acc_entry vin i e s = (fst s + Value e * vin ! N e, add_at (snd s) (N e) (Value e * vin ! i))"

definition Multiply_row :: "Vector \<Rightarrow> bool \<Rightarrow> nat \<Rightarrow> MatrixEntry list \<Rightarrow> Vector \<Rightarrow> Vector" where
  "Multiply_row vin addDCTerm i row outs =
     (if addDCTerm then fold (times_entry vin i) row outs
      else (let s = fold (acc_entry vin i) row (0, outs) in add_at (snd s) i (fst s)))"

definition scratch_row :: "(nat \<Rightarrow> nat) \<Rightarrow> Vector \<Rightarrow> bool \<Rightarrow> nat \<Rightarrow> MatrixEntry list \<Rightarrow> Vector list \<Rightarrow> Vector list" where
  "scratch_row thread_num vin addDCTerm i row OutScratch =
     OutScratch[thread_num i := Multiply_row vin addDCTerm i row (OutScratch ! thread_num i)]"

definition Multiply ::
  "(nat \<Rightarrow> nat) \<Rightarrow> SparseSymmetricMatrix \<Rightarrow> Vector \<Rightarrow> Vector \<Rightarrow> bool \<Rightarrow> nat \<Rightarrow> Vector" where
  "Multiply thread_num m vin out addDCTerm threads =
     (let OutScratch = row_loop (scratch_row thread_num vin addDCTerm) 0 m
                         (replicate threads (replicate (length vin) 0));
          dcTerm = (if addDCTerm then fold (\<lambda>i s. s + vin ! i) [0..<Rows m] 0 / real (length out) else 0)
      in map (\<lambda>i. fold (\<lambda>t o_i. o_i + OutScratch ! t ! i) [0..<threads] dcTerm) [0..<length out])"

definition wf_matrix :: "SparseSymmetricMatrix \<Rightarrow> bool" where
  "wf_matrix m = (\<forall>row \<in> set m. \<forall>e \<in> set row. N e < Rows m)"


text \<open>What one stored entry of row \<open>i\<close> adds to component \<open>k\<close> of the product.\<close>

definition entry_term :: "Vector \<Rightarrow> nat \<Rightarrow> nat \<Rightarrow> MatrixEntry \<Rightarrow> real" where
  "entry_term V i k e =
     (if k = i then Value e * V ! N e else 0) + (if k = N e then Value e * V ! i else 0)"

definition row_term :: "Vector \<Rightarrow> nat \<Rightarrow> nat \<Rightarrow> MatrixEntry list \<Rightarrow> real" where
  "row_term V i k row = sum_list (map (entry_term V i k) row)"

fun rows_term :: "Vector \<Rightarrow> nat \<Rightarrow> nat \<Rightarrow> SparseSymmetricMatrix \<Rightarrow> real" where
  "rows_term V i k [] = 0"
| "rows_term V i k (row # rows) = row_term V i k row + rows_term V (Suc i) k rows"

lemma length_add_at [simp]: "length (add_at xs i v) = length xs"
  by (simp add: add_at_def)

lemma nth_add_at:
  "i < length xs \<Longrightarrow> add_at xs i v ! k = xs ! k + (if k = i then v else 0)"
  by (simp add: add_at_def)

lemma length_times_entry [simp]: "length (times_entry V i e R) = length R"
  by (simp add: times_entry_def)

lemma nth_times_entry:
  "i < length R \<Longrightarrow> N e < length R \<Longrightarrow> times_entry V i e R ! k = R ! k + entry_term V i k e"
  by (simp add: times_entry_def nth_add_at entry_term_def)

lemma length_times_row [simp]: "length (times_row V i row R) = length R"
  unfolding times_row_def by (induction row arbitrary: R) simp_all

lemma nth_times_row:
  "i < length R \<Longrightarrow> \<forall>e \<in> set row. N e < length R \<Longrightarrow>
   times_row V i row R ! k = R ! k + row_term V i k row"
  unfolding times_row_def row_term_def
  by (induction row arbitrary: R) (simp_all add: nth_times_entry)

lemma length_row_loop_times [simp]: "length (row_loop (times_row V) i m R) = length R"
  by (induction m arbitrary: i R) simp_all

lemma nth_row_loop_times:
  "i + length m \<le> length R \<Longrightarrow> \<forall>row \<in> set m. \<forall>e \<in> set row. N e < length R \<Longrightarrow>
   row_loop (times_row V) i m R ! k = R ! k + rows_term V i k m"
proof (induction m arbitrary: i R)
  case Nil
  then show ?case by simp
next
  case (Cons row m)
  have "row_loop (times_row V) (Suc i) m (times_row V i row R) ! k
        = times_row V i row R ! k + rows_term V (Suc i) k m"
    using Cons.prems by (intro Cons.IH) simp_all
  also have "times_row V i row R ! k = R ! k + row_term V i k row"
    using Cons.prems by (intro nth_times_row) simp_all
  finally show ?case by simp
qed

lemma fold_acc_entry:
  "\<forall>e \<in> set row. N e < length (snd s) \<Longrightarrow>
   length (snd (fold (acc_entry V i) row s)) = length (snd s)
   \<and> fst (fold (acc_entry V i) row s) = fst s + sum_list (map (\<lambda>e. Value e * V ! N e) row)
   \<and> snd (fold (acc_entry V i) row s) ! k
       = snd s ! k + sum_list (map (\<lambda>e. if k = N e then Value e * V ! i else 0) row)"
  by (induction row arbitrary: s) (simp_all add: acc_entry_def nth_add_at)

lemma sum_list_entry_term:
  "sum_list (map (entry_term V i k) row)
   = (if k = i then sum_list (map (\<lambda>e. Value e * V ! N e) row) else 0)
     + sum_list (map (\<lambda>e. if k = N e then Value e * V ! i else 0) row)"
  by (induction row) (simp_all add: entry_term_def)

lemma length_Multiply_row [simp]:
  "\<forall>e \<in> set row. N e < length outs \<Longrightarrow> length (Multiply_row V a i row outs) = length outs"
  using fold_acc_entry [of row "(0, outs)" V i] length_times_row [of V i row outs]
  by (simp add: Multiply_row_def Let_def times_row_def)

lemma nth_Multiply_row:
  assumes "i < length outs" and "\<forall>e \<in> set row. N e < length outs"
  shows "Multiply_row V a i row outs ! k = outs ! k + row_term V i k row"
proof (cases a)
  case True
  then show ?thesis
    using nth_times_row [OF assms, of V k] by (simp add: Multiply_row_def times_row_def)
next
  case False
  let ?s = "fold (acc_entry V i) row (0, outs)"
  from assms(2) have f: "length (snd ?s) = length outs"
    "fst ?s = sum_list (map (\<lambda>e. Value e * V ! N e) row)"
    "snd ?s ! k = outs ! k + sum_list (map (\<lambda>e. if k = N e then Value e * V ! i else 0) row)"
    using fold_acc_entry [of row "(0, outs)" V i k] by simp_all
  from False have "Multiply_row V a i row outs ! k = add_at (snd ?s) i (fst ?s) ! k"
    by (simp add: Multiply_row_def Let_def)
  also have "\<dots> = snd ?s ! k + (if k = i then fst ?s else 0)"
    using assms(1) f(1) by (simp add: nth_add_at)
  finally show ?thesis
    by (simp add: f row_term_def sum_list_entry_term)
qed

text \<open>The sum over the threads of component \<open>k\<close> of the scratch vectors.\<close>

definition column_sum :: "Vector list \<Rightarrow> nat \<Rightarrow> real" where
  "column_sum S k = (\<Sum>t < length S. S ! t ! k)"

lemma fold_plus_sum: "fold (\<lambda>t acc. acc + f t) [0..<n] c = c + (\<Sum>t < n. f t)"
  by (induction n arbitrary: c) (simp_all add: algebra_simps)

lemma column_sum_update:
  assumes "t < length S"
  shows "column_sum (S[t := v]) k = column_sum S k + (v ! k - S ! t ! k)"
proof -
  have "column_sum (S[t := v]) k = (\<Sum>u < length S. if u = t then v ! k else S ! u ! k)"
    unfolding column_sum_def by (intro sum.cong) (auto simp: nth_list_update)
  also have "\<dots> = (\<Sum>u < length S. S ! u ! k + (if u = t then v ! k - S ! t ! k else 0))"
    by (intro sum.cong) auto
  also have "\<dots> = column_sum S k + (v ! k - S ! t ! k)"
    using assms by (simp add: sum.distrib column_sum_def)
  finally show ?thesis .
qed

definition scratch_ok :: "nat \<Rightarrow> nat \<Rightarrow> Vector list \<Rightarrow> bool" where
  "scratch_ok threads n S = (length S = threads \<and> (\<forall>v \<in> set S. length v = n))"

lemma scratch_row_ok:
  assumes "scratch_ok threads n S" "thread_num i < threads" "\<forall>e \<in> set row. N e < n"
  shows "scratch_ok threads n (scratch_row thread_num V a i row S)"
proof -
  from assms have "length (S ! thread_num i) = n"
    by (simp add: scratch_ok_def)
  with assms(3) have "length (Multiply_row V a i row (S ! thread_num i)) = n"
    by simp
  with assms(1) show ?thesis
    by (auto simp: scratch_ok_def scratch_row_def dest!: set_update_subset_insert [THEN subsetD])
qed

lemma scratch_row_sum:
  assumes "scratch_ok threads n S" "thread_num i < threads" "\<forall>e \<in> set row. N e < n" "i < n"
  shows "column_sum (scratch_row thread_num V a i row S) k = column_sum S k + row_term V i k row"
proof -
  from assms have l: "length (S ! thread_num i) = n" "thread_num i < length S"
    by (simp_all add: scratch_ok_def)
  show ?thesis
    unfolding scratch_row_def
    using nth_Multiply_row [of i "S ! thread_num i" row V a k] assms(3,4) l
    by (simp add: column_sum_update)
qed

lemma row_loop_scratch:
  assumes "scratch_ok threads n S" "\<forall>j. i \<le> j \<and> j < i + length m \<longrightarrow> thread_num j < threads"
    "\<forall>row \<in> set m. \<forall>e \<in> set row. N e < n" "i + length m \<le> n"
  shows "scratch_ok threads n (row_loop (scratch_row thread_num V a) i m S)
    \<and> column_sum (row_loop (scratch_row thread_num V a) i m S) k = column_sum S k + rows_term V i k m"
  using assms
proof (induction m arbitrary: i S)
  case Nil
  then show ?case by simp
next
  case (Cons row m)
  let ?S = "scratch_row thread_num V a i row S"
  from Cons.prems have t: "thread_num i < threads" and e: "\<forall>e \<in> set row. N e < n" and i: "i < n"
    by simp_all
  have ok: "scratch_ok threads n ?S"
    using Cons.prems(1) t e by (rule scratch_row_ok)
  have s: "column_sum ?S k = column_sum S k + row_term V i k row"
    using Cons.prems(1) t e i by (rule scratch_row_sum)
  have "scratch_ok threads n (row_loop (scratch_row thread_num V a) (Suc i) m ?S)
    \<and> column_sum (row_loop (scratch_row thread_num V a) (Suc i) m ?S) k
        = column_sum ?S k + rows_term V (Suc i) k m"
    using Cons.prems ok by (intro Cons.IH) simp_all
  with s show ?case by simp
qed

lemma column_sum_zero: "column_sum (replicate threads (replicate n 0)) k = 0" if "k < n"
  using that by (simp add: column_sum_def)

lemma Multiply_nth:
  assumes "wf_matrix m" "length V = Rows m" "length out = Rows m"
    "\<forall>i < Rows m. thread_num i < threads" "k < Rows m"
  shows "Multiply thread_num m V out False threads ! k = rows_term V 0 k m"
proof -
  let ?S = "row_loop (scratch_row thread_num V False) 0 m (replicate threads (replicate (length V) 0))"
  have ok0: "scratch_ok threads (Rows m) (replicate threads (replicate (length V) 0))"
    using assms(2) by (simp add: scratch_ok_def)
  have r: "scratch_ok threads (Rows m) ?S \<and> column_sum ?S k
        = column_sum (replicate threads (replicate (length V) 0)) k + rows_term V 0 k m"
    using assms ok0 by (intro row_loop_scratch) (auto simp: wf_matrix_def Rows_def)
  then have len: "length ?S = threads" by (simp add: scratch_ok_def)
  have "Multiply thread_num m V out False threads ! k
        = fold (\<lambda>t o_i. o_i + ?S ! t ! k) [0..<threads] 0"
    using assms(3,5) by (simp add: Multiply_def Let_def)
  also have "\<dots> = column_sum ?S k"
    by (simp add: fold_plus_sum column_sum_def len)
  also have "\<dots> = rows_term V 0 k m"
    using r assms(2,5) by (simp add: column_sum_zero)
  finally show ?thesis .
qed

lemma operator_times_nth:
  assumes "wf_matrix m" "k < Rows m"
  shows "operator_times m V ! k = rows_term V 0 k m"
proof -
  have "row_loop (times_row V) 0 m (Vector (Rows m)) ! k = Vector (Rows m) ! k + rows_term V 0 k m"
    using assms by (intro nth_row_loop_times) (auto simp: wf_matrix_def Rows_def Vector_def)
  then show ?thesis using assms(2) by (simp add: operator_times_def Vector_def)
qed

text \<open>
  C9. For a matrix whose column indices lie inside the matrix, a vector and an output
  vector of the matrix's dimension, and any assignment \<open>thread_num\<close> of the rows to the
  \<open>threads\<close> scratch vectors, \<open>Multiply\<close> without the DC term computes the same vector as
  the sequential \<open>operator*\<close> (over exact arithmetic).
\<close>

theorem Multiply_eq_operator_times:
  fixes m :: SparseSymmetricMatrix
  assumes "wf_matrix m" "length V = Rows m" "length out = Rows m"
    "\<forall>i < Rows m. thread_num i < threads"
  shows "Multiply thread_num m V out False threads = operator_times m V"
proof (rule nth_equalityI)
  show "length (Multiply thread_num m V out False threads) = length (operator_times m V)"
    using assms(3) by (simp add: Multiply_def Let_def operator_times_def Vector_def)
next
  fix k assume "k < length (Multiply thread_num m V out False threads)"
  then have k: "k < Rows m" using assms(3) by (simp add: Multiply_def Let_def)
  show "Multiply thread_num m V out False threads ! k = operator_times m V ! k"
    using Multiply_nth [OF assms k] operator_times_nth [OF assms(1) k] by simp
qed




subsection \<open>Conjugate gradients\<close>

text \<open>
  The vectors of the model hold real numbers. When a quotient of the loop has a zero
  divisor, the iterate holds infinities or NaNs from then on, and \<open>Solve\<close> still
  returns a count: \<open>NonFinite k\<close> is that outcome, with the count \<open>k\<close>.
\<close>

datatype solve_error = NonFinite int

record SolveResult =
  iterations :: int
  x_out :: Vector
  warning :: bool

record cg_state =
  ii :: int
  x_vec :: Vector
  r_vec :: Vector
  d_vec :: Vector
  delta_new :: real

definition dot :: "Vector \<Rightarrow> Vector \<Rightarrow> nat \<Rightarrow> real" where
  "dot u v dm = fold (\<lambda>i s. s + u ! i * v ! i) [0..<dm] 0"

definition add_scaled :: "Vector \<Rightarrow> Vector \<Rightarrow> real \<Rightarrow> nat \<Rightarrow> Vector" where
  "add_scaled u v a dm = map (\<lambda>i. if i < dm then u ! i + v ! i * a else u ! i) [0..<length u]"

text \<open>
  One round of the loop, \<open>++ii\<close> included. The divisors are \<open>dDotQ\<close> (of \<open>alpha\<close>) and
  \<open>delta_old\<close> (of \<open>beta\<close>); when one of them is zero the round ends with the count
  \<open>ii + 1\<close> and values that are not numbers.
\<close>

definition cg_step ::
  "(nat \<Rightarrow> nat) \<Rightarrow> SparseSymmetricMatrix \<Rightarrow> Vector \<Rightarrow> nat \<Rightarrow> bool \<Rightarrow> cg_state \<Rightarrow> solve_error + cg_state" where
  "cg_step thread_num A b threads addDCTerm s =
     (let dm = length b;
          q = Multiply thread_num A (d_vec s) (Vector dm) addDCTerm threads;
          dDotQ = dot (d_vec s) q dm
      in if dDotQ = 0 \<or> delta_new s = 0 then Inl (NonFinite (ii s + 1))
         else
           let alpha = delta_new s / dDotQ;
               delta_old = delta_new s;
               x1 = add_scaled (x_vec s) (d_vec s) alpha dm;
               r' = (if ii s mod 50 = 49
                     then (let r1 = Multiply thread_num A x1 (r_vec s) addDCTerm threads
                           in map (\<lambda>i. b ! i - r1 ! i) [0..<dm])
                     else map (\<lambda>i. r_vec s ! i - q ! i * alpha) [0..<dm]);
               x' = (if ii s mod 50 = 49 then add_scaled x1 (d_vec s) alpha dm else x1);
               delta = dot r' r' dm;
               beta = delta / delta_old
           in Inr \<lparr>ii = ii s + 1, x_vec = x', r_vec = r',
                   d_vec = map (\<lambda>i. r' ! i + d_vec s ! i * beta) [0..<dm], delta_new = delta\<rparr>)"

definition cg_continue :: "int \<Rightarrow> real \<Rightarrow> real \<Rightarrow> cg_state \<Rightarrow> bool" where
  "cg_continue iters eps delta_0 s = (ii s \<noteq> iters \<and> delta_new s > eps * delta_0)"

text \<open>
  The rounds on values that are not numbers. The loop goes on counting, and it tests
  \<open>delta_new > eps * delta_0\<close> on such values: \<open>nonfinite_gt k\<close> is the outcome of that
  comparison at the head of round \<open>k\<close> (true for an infinite \<open>delta_new\<close>, false for a
  NaN), a parameter of the model.
\<close>

partial_function (option) nonfinite_loop ::
  "(int \<Rightarrow> bool) \<Rightarrow> int \<Rightarrow> int \<Rightarrow> (solve_error + SolveResult) option" where
  "nonfinite_loop nonfinite_gt iters k =
     (if k \<noteq> iters \<and> nonfinite_gt k then nonfinite_loop nonfinite_gt iters (k + 1)
      else Some (Inl (NonFinite k)))"

declare nonfinite_loop.simps [code]

partial_function (option) cg_loop ::
  "(nat \<Rightarrow> nat) \<Rightarrow> (int \<Rightarrow> bool) \<Rightarrow> SparseSymmetricMatrix \<Rightarrow> Vector \<Rightarrow> int \<Rightarrow> real \<Rightarrow> real \<Rightarrow> nat \<Rightarrow> bool
   \<Rightarrow> cg_state \<Rightarrow> (solve_error + SolveResult) option" where
  "cg_loop thread_num nonfinite_gt A b iters eps delta_0 threads addDCTerm s =
     (if cg_continue iters eps delta_0 s
      then (case cg_step thread_num A b threads addDCTerm s of
              Inl (NonFinite k) \<Rightarrow> nonfinite_loop nonfinite_gt iters k
            | Inr s' \<Rightarrow> cg_loop thread_num nonfinite_gt A b iters eps delta_0 threads addDCTerm s')
      else Some (Inr \<lparr>iterations = ii s, x_out = x_vec s, warning = False\<rparr>))"

declare cg_loop.simps [code]

text \<open>The residual \<open>b - A x\<close> that \<open>Solve\<close> computes before the loop.\<close>

definition initial_residual ::
  "(nat \<Rightarrow> nat) \<Rightarrow> SparseSymmetricMatrix \<Rightarrow> Vector \<Rightarrow> Vector \<Rightarrow> nat \<Rightarrow> bool \<Rightarrow> Vector" where
  "initial_residual thread_num A b x1 threads addDCTerm =
     (let dm = length b;
          r0 = Multiply thread_num A x1 (Vector dm) addDCTerm threads
      in map (\<lambda>i. b ! i - r0 ! i) [0..<dm])"

definition Solve ::
  "(nat \<Rightarrow> nat) \<Rightarrow> (int \<Rightarrow> bool) \<Rightarrow> SparseSymmetricMatrix \<Rightarrow> Vector \<Rightarrow> int \<Rightarrow> Vector \<Rightarrow> real \<Rightarrow> bool
   \<Rightarrow> int \<Rightarrow> bool \<Rightarrow> (solve_error + SolveResult) option" where
  "Solve thread_num nonfinite_gt A b iters x0 eps0 reset threads0 addDCTerm =
     (let eps = eps0 * eps0;
          dm = length b;
          threads = (if threads0 < 1 then 1 else nat threads0);
          x1 = (if reset then Vector dm else x0);
          r1 = initial_residual thread_num A b x1 threads addDCTerm;
          delta = dot r1 r1 dm
      in if delta < eps
         then Some (Inr \<lparr>iterations = 0, x_out = x1, warning = True\<rparr>)
         else cg_loop thread_num nonfinite_gt A b iters eps delta threads addDCTerm
                \<lparr>ii = 0, x_vec = x1, r_vec = r1, d_vec = r1, delta_new = delta\<rparr>)"

text \<open>The \<open>int\<close> that \<open>Solve\<close> returns.\<close>

fun Solve_count :: "solve_error + SolveResult \<Rightarrow> int" where
  "Solve_count (Inl (NonFinite k)) = k"
| "Solve_count (Inr res) = iterations res"

text \<open>
  The call of \<open>Solve\<close> in \<open>SolveFixedDepthMatrix\<close>. \<open>std_pow\<close> is the library function
  \<open>std::pow\<close> on doubles, a parameter: what it returns is a double near the power, and
  the cast \<open>(int)\<close> truncates it.
\<close>

definition ITERATION_POWER :: real where
  "ITERATION_POWER = 1 / 3"

definition int_of_double :: "real \<Rightarrow> int" where
  "int_of_double v = (if v < 0 then \<lceil>v\<rceil> else \<lfloor>v\<rfloor>)"

definition SolveFixedDepthMatrix_solve ::
  "(nat \<Rightarrow> nat) \<Rightarrow> (int \<Rightarrow> bool) \<Rightarrow> (real \<Rightarrow> real \<Rightarrow> real) \<Rightarrow> SparseSymmetricMatrix \<Rightarrow> Vector \<Rightarrow> Vector
   \<Rightarrow> int \<Rightarrow> real \<Rightarrow> bool \<Rightarrow> int \<Rightarrow> int \<Rightarrow> bool \<Rightarrow> (solve_error + SolveResult) option" where
  "SolveFixedDepthMatrix_solve thread_num nonfinite_gt std_pow M B X minIters accuracy noSolve fixedIters
       threads addDCTerm =
     (let accuracy' = accuracy / 100000 * real (Rows M)
      in if noSolve then Some (Inr \<lparr>iterations = 0, x_out = X, warning = False\<rparr>)
         else
           let iters = (if fixedIters \<ge> 0 then fixedIters
                        else max (int_of_double (std_pow (real (Rows M)) ITERATION_POWER)) minIters);
               acc = (if fixedIters \<ge> 0 then 1 / 10 ^ 10 else accuracy')
           in Solve thread_num nonfinite_gt M B iters X acc False threads addDCTerm)"

text \<open>
  The state in which \<open>Solve\<close> enters the loop, and the state after \<open>k\<close> further rounds
  of the loop body.
\<close>

definition cg_start ::
  "(nat \<Rightarrow> nat) \<Rightarrow> SparseSymmetricMatrix \<Rightarrow> Vector \<Rightarrow> Vector \<Rightarrow> nat \<Rightarrow> bool \<Rightarrow> cg_state" where
  "cg_start thread_num A b x1 threads addDCTerm =
     (let r1 = initial_residual thread_num A b x1 threads addDCTerm
      in \<lparr>ii = 0, x_vec = x1, r_vec = r1, d_vec = r1, delta_new = dot r1 r1 (length b)\<rparr>)"

fun cg_iterate ::
  "(nat \<Rightarrow> nat) \<Rightarrow> SparseSymmetricMatrix \<Rightarrow> Vector \<Rightarrow> nat \<Rightarrow> bool \<Rightarrow> nat \<Rightarrow> cg_state
   \<Rightarrow> solve_error + cg_state" where
  "cg_iterate thread_num A b threads addDCTerm 0 s = Inr s"
| "cg_iterate thread_num A b threads addDCTerm (Suc k) s =
     (case cg_step thread_num A b threads addDCTerm s of
        Inl e \<Rightarrow> Inl e
      | Inr s' \<Rightarrow> cg_iterate thread_num A b threads addDCTerm k s')"


lemma cg_step_ii: "cg_step thread_num A b threads addDCTerm s = Inr s' \<Longrightarrow> ii s' = ii s + 1"
  by (auto simp: cg_step_def Let_def split: if_splits)

lemma cg_step_NonFinite:
  "cg_step thread_num A b threads addDCTerm s = Inl (NonFinite k) \<Longrightarrow> k = ii s + 1"
  by (auto simp: cg_step_def Let_def split: if_splits)

lemma cg_loop_stop:
  "\<not> cg_continue iters eps delta_0 s \<Longrightarrow>
   cg_loop thread_num nonfinite_gt A b iters eps delta_0 threads addDCTerm s
     = Some (Inr \<lparr>iterations = ii s, x_out = x_vec s, warning = False\<rparr>)"
  by (subst cg_loop.simps) simp

lemma nonfinite_loop_returns:
  "k \<le> iters \<Longrightarrow>
   \<exists>k'. nonfinite_loop nonfinite_gt iters k = Some (Inl (NonFinite k')) \<and> k \<le> k' \<and> k' \<le> iters"
proof (induction "nat (iters - k)" arbitrary: k)
  case 0
  then have "k = iters" by simp
  then show ?case by (subst nonfinite_loop.simps) simp
next
  case (Suc m)
  show ?case
  proof (cases "k \<noteq> iters \<and> nonfinite_gt k")
    case False
    with Suc.prems show ?thesis by (subst nonfinite_loop.simps) auto
  next
    case True
    from Suc.hyps(2) have "m = nat (iters - (k + 1))" "k + 1 \<le> iters" by linarith+
    from Suc.hyps(1) [OF this] obtain k' where
      k: "nonfinite_loop nonfinite_gt iters (k + 1) = Some (Inl (NonFinite k'))"
         "k + 1 \<le> k'" "k' \<le> iters"
      by blast
    have "nonfinite_loop nonfinite_gt iters k = Some (Inl (NonFinite k'))"
      using True k(1) by (subst nonfinite_loop.simps) simp
    with k(2,3) show ?thesis by auto
  qed
qed

text \<open>
  The loop returns. A count with numbers is the number of the first state, among those
  that the rounds of the body produce, at which the count is \<open>iters\<close> or \<open>delta_new\<close> is
  at most \<open>eps * delta_0\<close>.
\<close>

lemma cg_loop_trace:
  "ii s \<le> iters \<Longrightarrow>
   \<exists>out. cg_loop thread_num nonfinite_gt A b iters eps delta_0 threads addDCTerm s = Some out
     \<and> ii s \<le> Solve_count out \<and> Solve_count out \<le> iters
     \<and> (\<forall>res. out = Inr res \<longrightarrow>
          \<not> warning res
          \<and> (\<exists>s'. cg_iterate thread_num A b threads addDCTerm (nat (iterations res - ii s)) s = Inr s'
                \<and> x_out res = x_vec s'
                \<and> (iterations res = iters \<or> delta_new s' \<le> eps * delta_0))
          \<and> (\<forall>j < nat (iterations res - ii s).
                \<exists>sj. cg_iterate thread_num A b threads addDCTerm j s = Inr sj
                  \<and> eps * delta_0 < delta_new sj))"
proof (induction "nat (iters - ii s)" arbitrary: s)
  case 0
  then have n: "\<not> cg_continue iters eps delta_0 s" and e: "ii s = iters"
    by (simp_all add: cg_continue_def)
  from cg_loop_stop [OF n] e show ?case by simp
next
  case (Suc k)
  show ?case
  proof (cases "cg_continue iters eps delta_0 s")
    case False
    then have "ii s = iters \<or> delta_new s \<le> eps * delta_0"
      by (auto simp: cg_continue_def)
    with cg_loop_stop [OF False] Suc.prems show ?thesis by simp
  next
    case True
    then have gt: "eps * delta_0 < delta_new s" by (simp add: cg_continue_def)
    show ?thesis
    proof (cases "cg_step thread_num A b threads addDCTerm s")
      case (Inl e)
      obtain k0 where e: "e = NonFinite k0" by (cases e)
      from cg_step_NonFinite [OF Inl [unfolded e]] have k0: "k0 = ii s + 1" .
      with Suc.hyps(2) have "k0 \<le> iters" by linarith
      from nonfinite_loop_returns [OF this, of nonfinite_gt] obtain k' where
        k: "nonfinite_loop nonfinite_gt iters k0 = Some (Inl (NonFinite k'))" "k0 \<le> k'" "k' \<le> iters"
        by blast
      have "cg_loop thread_num nonfinite_gt A b iters eps delta_0 threads addDCTerm s
          = Some (Inl (NonFinite k'))"
        using True Inl e k(1) by (subst cg_loop.simps) simp
      with k(2,3) k0 show ?thesis by simp
    next
      case (Inr s')
      from cg_step_ii [OF Inr] have i: "ii s' = ii s + 1" .
      with Suc.hyps(2) have "k = nat (iters - ii s')" "ii s' \<le> iters" by linarith+
      from Suc.hyps(1) [OF this] obtain out where
        o: "cg_loop thread_num nonfinite_gt A b iters eps delta_0 threads addDCTerm s' = Some out"
           "ii s' \<le> Solve_count out" "Solve_count out \<le> iters"
           "\<forall>res. out = Inr res \<longrightarrow>
              \<not> warning res
              \<and> (\<exists>s''. cg_iterate thread_num A b threads addDCTerm (nat (iterations res - ii s')) s' = Inr s''
                    \<and> x_out res = x_vec s''
                    \<and> (iterations res = iters \<or> delta_new s'' \<le> eps * delta_0))
              \<and> (\<forall>j < nat (iterations res - ii s').
                    \<exists>sj. cg_iterate thread_num A b threads addDCTerm j s' = Inr sj
                      \<and> eps * delta_0 < delta_new sj)"
        by blast
      have l: "cg_loop thread_num nonfinite_gt A b iters eps delta_0 threads addDCTerm s = Some out"
        using True Inr o(1) by (subst cg_loop.simps) simp
      have t: "\<not> warning res
              \<and> (\<exists>s''. cg_iterate thread_num A b threads addDCTerm (nat (iterations res - ii s)) s = Inr s''
                    \<and> x_out res = x_vec s''
                    \<and> (iterations res = iters \<or> delta_new s'' \<le> eps * delta_0))
              \<and> (\<forall>j < nat (iterations res - ii s).
                    \<exists>sj. cg_iterate thread_num A b threads addDCTerm j s = Inr sj
                      \<and> eps * delta_0 < delta_new sj)" if r: "out = Inr res" for res
      proof -
        from o(2) r i have ge: "ii s + 1 \<le> iterations res" by simp
        define m where "m = nat (iterations res - ii s')"
        from ge i have n: "nat (iterations res - ii s) = Suc m" unfolding m_def by linarith
        from o(4) r have w: "\<not> warning res"
          and ex: "\<exists>s''. cg_iterate thread_num A b threads addDCTerm m s' = Inr s''
                    \<and> x_out res = x_vec s''
                    \<and> (iterations res = iters \<or> delta_new s'' \<le> eps * delta_0)"
          and al: "\<forall>j < m. \<exists>sj. cg_iterate thread_num A b threads addDCTerm j s' = Inr sj
                      \<and> eps * delta_0 < delta_new sj"
          unfolding m_def by blast+
        have st: "cg_iterate thread_num A b threads addDCTerm (Suc j) s
            = cg_iterate thread_num A b threads addDCTerm j s'" for j
          by (simp add: Inr)
        have "\<exists>sj. cg_iterate thread_num A b threads addDCTerm j s = Inr sj
                      \<and> eps * delta_0 < delta_new sj" if "j < Suc m" for j
        proof (cases j)
          case 0
          with gt show ?thesis by simp
        next
          case (Suc j')
          with that have "j' < m" by simp
          with al show ?thesis unfolding Suc st by blast
        qed
        with w ex show ?thesis unfolding n st by blast
      qed
      from l o(2,3) i t show ?thesis by auto
    qed
  qed
qed

lemma Solve_cg_loop:
  "Solve thread_num nonfinite_gt A b iters x0 eps0 reset threads0 addDCTerm
     = (if delta_new (cg_start thread_num A b (if reset then Vector (length b) else x0)
                        (if threads0 < 1 then 1 else nat threads0) addDCTerm) < eps0 * eps0
        then Some (Inr \<lparr>iterations = 0, x_out = (if reset then Vector (length b) else x0),
                        warning = True\<rparr>)
        else cg_loop thread_num nonfinite_gt A b iters (eps0 * eps0)
               (delta_new (cg_start thread_num A b (if reset then Vector (length b) else x0)
                        (if threads0 < 1 then 1 else nat threads0) addDCTerm))
               (if threads0 < 1 then 1 else nat threads0) addDCTerm
               (cg_start thread_num A b (if reset then Vector (length b) else x0)
                        (if threads0 < 1 then 1 else nat threads0) addDCTerm))"
  by (simp add: Solve_def cg_start_def Let_def)

lemma cg_start_ii: "ii (cg_start thread_num A b x1 threads addDCTerm) = 0"
  by (simp add: cg_start_def Let_def)

lemma int_of_double_nonneg: "0 \<le> v \<Longrightarrow> 0 \<le> int_of_double v"
  by (simp add: int_of_double_def)

lemma int_of_double_le_ceiling:
  assumes "\<bar>v - w\<bar> < 1"
  shows "int_of_double v \<le> max \<lceil>w\<rceil> 0"
proof (cases "v < 0")
  case True
  then have "\<lceil>v\<rceil> \<le> 0" by (simp add: ceiling_le_zero)
  then have "\<lceil>v\<rceil> \<le> max \<lceil>w\<rceil> 0" by linarith
  with True show ?thesis by (simp only: int_of_double_def if_True)
next
  case False
  from assms have "v < w + 1" by linarith
  also have "\<dots> \<le> real_of_int \<lceil>w\<rceil> + 1" by simp
  finally have "v < real_of_int (\<lceil>w\<rceil> + 1)" by simp
  then have "\<lfloor>v\<rfloor> < \<lceil>w\<rceil> + 1" by (simp only: floor_less_iff)
  then have "\<lfloor>v\<rfloor> \<le> max \<lceil>w\<rceil> 0" by linarith
  with False show ?thesis by (simp only: int_of_double_def if_False)
qed

lemma int_of_double_ge_0:
  assumes "\<bar>v - w\<bar> < 1" and "0 \<le> w"
  shows "0 \<le> int_of_double v"
proof (cases "v < 0")
  case True
  from assms have "- 1 < v" by linarith
  then have "0 \<le> \<lceil>v\<rceil>" by linarith
  with True show ?thesis by (simp only: int_of_double_def if_True)
next
  case False
  then show ?thesis by (simp add: int_of_double_def)
qed


definition M1 :: SparseSymmetricMatrix where
  "M1 = [[\<lparr>N = 0, Value = 1 / 2\<rparr>, \<lparr>N = 1, Value = 3\<rparr>], [\<lparr>N = 1, Value = 1\<rparr>]]"

theorem Multiply_eq_operator_times_witness:
  "length [1, 2 :: real] = Rows M1 \<and> length [0, 0 :: real] = Rows M1
   \<and> Multiply (\<lambda>i. i mod 2) M1 [1, 2] [0, 0] False 2 = operator_times M1 [1, 2]
   \<and> operator_times M1 [1, 2] = [7, 7]"
proof -
  have w: "wf_matrix M1" by (simp add: wf_matrix_def M1_def Rows_def)
  have l: "length [1, 2 :: real] = Rows M1" "length [0, 0 :: real] = Rows M1"
    by (simp_all add: M1_def Rows_def)
  have t: "\<forall>i < Rows M1. i mod 2 < 2" by simp
  have v: "operator_times M1 [1, 2] = [7, 7]"
    by (simp add: operator_times_def M1_def Rows_def Vector_def times_row_def times_entry_def add_at_def)
  from Multiply_eq_operator_times [OF w l t] l v show ?thesis by simp
qed

text \<open>
  C8. When the squared norm of the initial residual \<open>b - A x\<close> (with \<open>x\<close> reset first
  when \<open>reset\<close> is set) is below the tolerance, which is the square of the \<open>eps\<close>
  argument, \<open>Solve\<close> warns and returns 0 iterations, and the iterate is \<open>x\<close> after the
  optional reset and nothing else.
\<close>

theorem Solve_initial_residual_too_low:
  assumes "dot (initial_residual thread_num A b (if reset then Vector (length b) else x0)
                  (if threads0 < 1 then 1 else nat threads0) addDCTerm)
               (initial_residual thread_num A b (if reset then Vector (length b) else x0)
                  (if threads0 < 1 then 1 else nat threads0) addDCTerm) (length b) < eps0 * eps0"
  shows "Solve thread_num nonfinite_gt A b iters x0 eps0 reset threads0 addDCTerm
         = Some (Inr \<lparr>iterations = 0, x_out = (if reset then Vector (length b) else x0),
                      warning = True\<rparr>)"
  using assms by (simp add: Solve_def Let_def)

definition A2 :: SparseSymmetricMatrix where
  "A2 = [[\<lparr>N = 0, Value = 1 / 2\<rparr>], [\<lparr>N = 1, Value = 1\<rparr>]]"

lemma initial_residual_A2:
  "initial_residual (\<lambda>i. 0) A2 [1, 1] [1, 1 / 2] 1 False = [0, 0]"
  by (simp add: initial_residual_def Multiply_def A2_def Rows_def scratch_row_def Multiply_row_def
      acc_entry_def add_at_def Vector_def Let_def)

theorem Solve_initial_residual_too_low_witness:
  "dot (initial_residual (\<lambda>i. 0) A2 [1, 1] [1, 1 / 2] 1 False)
       (initial_residual (\<lambda>i. 0) A2 [1, 1] [1, 1 / 2] 1 False) (length [1, 1 :: real])
     < (1 / 10) * (1 / 10)
   \<and> Solve (\<lambda>i. 0) (\<lambda>k. False) A2 [1, 1] 5 [1, 1 / 2] (1 / 10) False 1 False
       = Some (Inr \<lparr>iterations = 0, x_out = [1, 1 / 2], warning = True\<rparr>)"
proof -
  have h: "dot (initial_residual (\<lambda>i. 0) A2 [1, 1] [1, 1 / 2] 1 False)
       (initial_residual (\<lambda>i. 0) A2 [1, 1] [1, 1 / 2] 1 False) (length [1, 1 :: real])
     < (1 / 10) * (1 / 10)"
    unfolding initial_residual_A2 by (simp add: dot_def)
  have "Solve (\<lambda>i. 0) (\<lambda>k. False) A2 [1, 1] 5 [1, 1 / 2] (1 / 10) False 1 False
       = Some (Inr \<lparr>iterations = 0, x_out = (if False then Vector (length [1, 1 :: real]) else [1, 1 / 2]),
                    warning = True\<rparr>)"
  proof (rule Solve_initial_residual_too_low)
    have "(if (1::int) < 1 then 1 else nat 1) = (1::nat)" by simp
    with h show "dot (initial_residual (\<lambda>i. 0) A2 [1, 1] (if False then Vector (length [1, 1 :: real]) else [1, 1 / 2])
                  (if (1::int) < 1 then 1 else nat 1) False)
               (initial_residual (\<lambda>i. 0) A2 [1, 1] (if False then Vector (length [1, 1 :: real]) else [1, 1 / 2])
                  (if (1::int) < 1 then 1 else nat 1) False) (length [1, 1 :: real]) < (1 / 10) * (1 / 10)"
      by (simp only: if_False)
  qed
  with h show ?thesis by simp
qed

text \<open>
  C2 (as the code has it). In a whole-depth solve with \<open>fixedIters\<close> unset, and with
  \<open>std::pow\<close> returning a double less than 1 away from the cube root of the number \<open>n\<close>
  of rows, the solver returns, and the count it returns, numbers or not in the
  iterate, is at most its budget \<open>max((int)pow(n, 1/3), minIters)\<close>, which is at most
  \<open>max(\<lceil>n^(1/3)\<rceil>, minIters)\<close>. The argument passed as \<open>eps\<close> is
  \<open>E = accuracy / 100000 * n\<close>, and \<open>Solve\<close> squares it: a solve that neither warns nor
  leaves the numbers returns the iterate of the first state, among those that the rounds
  of the loop body produce from the initial residual, at which the budget is used up
  or the squared residual is at most \<open>E\<^sup>2\<close> times the initial squared residual; at
  every state before it the squared residual is above that. It warns when the
  initial squared residual is below \<open>E\<^sup>2\<close>.
\<close>

theorem SolveFixedDepthMatrix_iteration_budget:
  assumes "fixedIters < 0"
    and "\<bar>std_pow (real (Rows M)) ITERATION_POWER - root 3 (real (Rows M))\<bar> < 1"
  shows "let T = (if threads0 < 1 then 1 else nat threads0);
             S0 = cg_start thread_num M B X T addDCTerm;
             E = accuracy / 100000 * real (Rows M);
             iters = max (int_of_double (std_pow (real (Rows M)) ITERATION_POWER)) minIters
         in \<exists>out. SolveFixedDepthMatrix_solve thread_num nonfinite_gt std_pow M B X minIters accuracy
                     noSolve fixedIters threads0 addDCTerm = Some out
              \<and> 0 \<le> Solve_count out
              \<and> Solve_count out \<le> iters
              \<and> Solve_count out \<le> max \<lceil>root 3 (real (Rows M))\<rceil> minIters
              \<and> (\<forall>res. out = Inr res \<and> \<not> noSolve \<and> \<not> warning res \<longrightarrow>
                   (\<exists>s. cg_iterate thread_num M B T addDCTerm (nat (iterations res)) S0 = Inr s
                        \<and> x_out res = x_vec s
                        \<and> (iterations res = iters \<or> delta_new s \<le> E * E * delta_new S0))
                   \<and> (\<forall>j < nat (iterations res).
                         \<exists>sj. cg_iterate thread_num M B T addDCTerm j S0 = Inr sj
                           \<and> E * E * delta_new S0 < delta_new sj))
              \<and> (\<forall>res. out = Inr res \<and> warning res \<longrightarrow>
                   iterations res = 0 \<and> delta_new S0 < E * E)"
proof -
  define T where "T = (if threads0 < 1 then 1 else nat threads0)"
  define S0 where "S0 = cg_start thread_num M B X T addDCTerm"
  define E where "E = accuracy / 100000 * real (Rows M)"
  define iters where "iters = max (int_of_double (std_pow (real (Rows M)) ITERATION_POWER)) minIters"
  let ?w = "root 3 (real (Rows M))"
  have w0: "0 \<le> ?w" by simp
  have nn: "0 \<le> iters"
    using int_of_double_ge_0 [OF assms(2) w0] by (simp add: iters_def)
  have "int_of_double (std_pow (real (Rows M)) ITERATION_POWER) \<le> max \<lceil>?w\<rceil> 0"
    by (rule int_of_double_le_ceiling [OF assms(2)])
  moreover from w0 have "0 \<le> \<lceil>?w\<rceil>" by linarith
  ultimately have le: "iters \<le> max \<lceil>?w\<rceil> minIters"
    unfolding iters_def by linarith
  have main: "\<exists>out. SolveFixedDepthMatrix_solve thread_num nonfinite_gt std_pow M B X minIters accuracy
                     noSolve fixedIters threads0 addDCTerm = Some out
              \<and> 0 \<le> Solve_count out
              \<and> Solve_count out \<le> iters
              \<and> Solve_count out \<le> max \<lceil>?w\<rceil> minIters
              \<and> (\<forall>res. out = Inr res \<and> \<not> noSolve \<and> \<not> warning res \<longrightarrow>
                   (\<exists>s. cg_iterate thread_num M B T addDCTerm (nat (iterations res)) S0 = Inr s
                        \<and> x_out res = x_vec s
                        \<and> (iterations res = iters \<or> delta_new s \<le> E * E * delta_new S0))
                   \<and> (\<forall>j < nat (iterations res).
                         \<exists>sj. cg_iterate thread_num M B T addDCTerm j S0 = Inr sj
                           \<and> E * E * delta_new S0 < delta_new sj))
              \<and> (\<forall>res. out = Inr res \<and> warning res \<longrightarrow>
                   iterations res = 0 \<and> delta_new S0 < E * E)"
  proof (cases noSolve)
    case True
    have "SolveFixedDepthMatrix_solve thread_num nonfinite_gt std_pow M B X minIters accuracy
            noSolve fixedIters threads0 addDCTerm
          = Some (Inr \<lparr>iterations = 0, x_out = X, warning = False\<rparr>)"
      using True by (simp add: SolveFixedDepthMatrix_solve_def)
    moreover have "0 \<le> max \<lceil>?w\<rceil> minIters" using nn le by linarith
    ultimately show ?thesis using nn True by simp
  next
    case False
    have S: "SolveFixedDepthMatrix_solve thread_num nonfinite_gt std_pow M B X minIters accuracy
            noSolve fixedIters threads0 addDCTerm
          = (if delta_new S0 < E * E
             then Some (Inr \<lparr>iterations = 0, x_out = X, warning = True\<rparr>)
             else cg_loop thread_num nonfinite_gt M B iters (E * E) (delta_new S0) T addDCTerm S0)"
      using False assms(1)
      by (simp add: SolveFixedDepthMatrix_solve_def Let_def Solve_cg_loop T_def S0_def E_def iters_def)
    show ?thesis
    proof (cases "delta_new S0 < E * E")
      case True
      have "0 \<le> max \<lceil>?w\<rceil> minIters" using nn le by linarith
      with S True nn show ?thesis by simp
    next
      case nlow: False
      have "ii S0 \<le> iters" using nn by (simp add: S0_def cg_start_ii)
      from cg_loop_trace [OF this, of thread_num nonfinite_gt M B "E * E" "delta_new S0" T addDCTerm]
      obtain out where
        o: "cg_loop thread_num nonfinite_gt M B iters (E * E) (delta_new S0) T addDCTerm S0 = Some out"
           "ii S0 \<le> Solve_count out" "Solve_count out \<le> iters"
           "\<forall>res. out = Inr res \<longrightarrow>
              \<not> warning res
              \<and> (\<exists>s'. cg_iterate thread_num M B T addDCTerm (nat (iterations res - ii S0)) S0 = Inr s'
                    \<and> x_out res = x_vec s'
                    \<and> (iterations res = iters \<or> delta_new s' \<le> E * E * delta_new S0))
              \<and> (\<forall>j < nat (iterations res - ii S0).
                    \<exists>sj. cg_iterate thread_num M B T addDCTerm j S0 = Inr sj
                      \<and> E * E * delta_new S0 < delta_new sj)"
        by blast
      have i0: "ii S0 = 0" by (simp add: S0_def cg_start_ii)
      from S nlow o(1) have
        "SolveFixedDepthMatrix_solve thread_num nonfinite_gt std_pow M B X minIters accuracy
            noSolve fixedIters threads0 addDCTerm = Some out"
        by simp
      moreover from o(2) i0 have "0 \<le> Solve_count out" by simp
      moreover from o(3) le have "Solve_count out \<le> max \<lceil>?w\<rceil> minIters" by linarith
      moreover note o(3)
      moreover from o(4) have
        "\<forall>res. out = Inr res \<and> \<not> noSolve \<and> \<not> warning res \<longrightarrow>
                   (\<exists>s. cg_iterate thread_num M B T addDCTerm (nat (iterations res)) S0 = Inr s
                        \<and> x_out res = x_vec s
                        \<and> (iterations res = iters \<or> delta_new s \<le> E * E * delta_new S0))
                   \<and> (\<forall>j < nat (iterations res).
                         \<exists>sj. cg_iterate thread_num M B T addDCTerm j S0 = Inr sj
                           \<and> E * E * delta_new S0 < delta_new sj)"
        unfolding i0 by simp
      moreover from o(4) have "\<forall>res. out = Inr res \<and> warning res \<longrightarrow>
                   iterations res = 0 \<and> delta_new S0 < E * E"
        by blast
      ultimately show ?thesis by blast
    qed
  qed
  show ?thesis
    unfolding Let_def using main unfolding T_def S0_def E_def iters_def .
qed

text \<open>
  The matrix \<open>diag(1, 10001/9999)\<close> (a diagonal entry is stored halved), for which the
  first iteration divides the squared residual by \<open>10^8\<close>.
\<close>

definition A3 :: SparseSymmetricMatrix where
  "A3 = [[\<lparr>N = 0, Value = 1 / 2\<rparr>], [\<lparr>N = 1, Value = 10001 / 19998\<rparr>]]"

lemma Rows_A3: "Rows A3 = 2"
  by (simp add: A3_def Rows_def)

lemma root3_2_bounds: "1 \<le> root 3 2 \<and> root 3 2 \<le> 2"
proof
  have "root 3 1 \<le> root 3 2" by simp
  then show "1 \<le> root 3 2" by simp
  have "root 3 (2 ^ 3) = (2 :: real)" by (rule real_root_power_cancel) simp_all
  moreover have "root 3 2 \<le> root 3 (2 ^ 3 :: real)" by (rule real_root_le_mono) simp_all
  ultimately show "root 3 2 \<le> 2" by simp
qed

lemma cg_iterate_one:
  "cg_iterate thread_num A b threads addDCTerm 1 s =
     (case cg_step thread_num A b threads addDCTerm s of Inl e \<Rightarrow> Inl e | Inr s' \<Rightarrow> Inr s')"
  by (simp split: sum.splits)

lemma cg_iterate_two:
  "cg_iterate thread_num A b threads addDCTerm 2 s =
     (case cg_step thread_num A b threads addDCTerm s of
        Inl e \<Rightarrow> Inl e
      | Inr s' \<Rightarrow> (case cg_step thread_num A b threads addDCTerm s' of
                    Inl e \<Rightarrow> Inl e | Inr s'' \<Rightarrow> Inr s''))"
  by (simp add: numeral_2_eq_2 split: sum.splits)

lemma cg_loop_continue:
  "cg_continue iters eps delta_0 s \<Longrightarrow> cg_step thread_num A b threads addDCTerm s = Inr s' \<Longrightarrow>
   cg_loop thread_num nonfinite_gt A b iters eps delta_0 threads addDCTerm s
     = cg_loop thread_num nonfinite_gt A b iters eps delta_0 threads addDCTerm s'"
  by (subst cg_loop.simps) simp

lemma SolveFixedDepthMatrix_solve_cg_loop:
  "fixedIters < 0 \<Longrightarrow> \<not> noSolve \<Longrightarrow>
   SolveFixedDepthMatrix_solve thread_num nonfinite_gt std_pow M B X minIters accuracy
            noSolve fixedIters threads0 addDCTerm
     = (if delta_new (cg_start thread_num M B X (if threads0 < 1 then 1 else nat threads0) addDCTerm)
             < (accuracy / 100000 * real (Rows M)) * (accuracy / 100000 * real (Rows M))
        then Some (Inr \<lparr>iterations = 0, x_out = X, warning = True\<rparr>)
        else cg_loop thread_num nonfinite_gt M B
               (max (int_of_double (std_pow (real (Rows M)) ITERATION_POWER)) minIters)
               ((accuracy / 100000 * real (Rows M)) * (accuracy / 100000 * real (Rows M)))
               (delta_new (cg_start thread_num M B X (if threads0 < 1 then 1 else nat threads0) addDCTerm))
               (if threads0 < 1 then 1 else nat threads0) addDCTerm
               (cg_start thread_num M B X (if threads0 < 1 then 1 else nat threads0) addDCTerm))"
  by (simp add: SolveFixedDepthMatrix_solve_def Let_def Solve_cg_loop)

lemma cg_start_A3:
  "cg_start (\<lambda>i. 0) A3 [1, 1] [0, 0] 1 False
   = \<lparr>ii = 0, x_vec = [0, 0], r_vec = [1, 1], d_vec = [1, 1], delta_new = 2\<rparr>"
  by code_simp

lemma cg_step_A3_first:
  "cg_step (\<lambda>i. 0) A3 [1, 1] 1 False
     \<lparr>ii = 0, x_vec = [0, 0], r_vec = [1, 1], d_vec = [1, 1], delta_new = 2\<rparr>
   = Inr \<lparr>ii = 1, x_vec = [9999 / 10000, 9999 / 10000], r_vec = [1 / 10000, - (1 / 10000)],
          d_vec = [10001 / 100000000, - (9999 / 100000000)], delta_new = 1 / 50000000\<rparr>"
  by code_simp

lemma cg_step_A3_second:
  "cg_step (\<lambda>i. 0) A3 [1, 1] 1 False
     \<lparr>ii = 1, x_vec = [9999 / 10000, 9999 / 10000], r_vec = [1 / 10000, - (1 / 10000)],
      d_vec = [10001 / 100000000, - (9999 / 100000000)], delta_new = 1 / 50000000\<rparr>
   = Inr \<lparr>ii = 2, x_vec = [1, 9999 / 10001], r_vec = [0, 0], d_vec = [0, 0], delta_new = 0\<rparr>"
  by code_simp

lemma cg_iterate_A3_1:
  "cg_iterate (\<lambda>i. 0) A3 [1, 1] 1 False 1 (cg_start (\<lambda>i. 0) A3 [1, 1] [0, 0] 1 False)
   = Inr \<lparr>ii = 1, x_vec = [9999 / 10000, 9999 / 10000], r_vec = [1 / 10000, - (1 / 10000)],
          d_vec = [10001 / 100000000, - (9999 / 100000000)], delta_new = 1 / 50000000\<rparr>"
  by (simp only: cg_start_A3 cg_iterate_one cg_step_A3_first sum.case)

lemma cg_iterate_A3_2:
  "cg_iterate (\<lambda>i. 0) A3 [1, 1] 1 False 2 (cg_start (\<lambda>i. 0) A3 [1, 1] [0, 0] 1 False)
   = Inr \<lparr>ii = 2, x_vec = [1, 9999 / 10001], r_vec = [0, 0], d_vec = [0, 0], delta_new = 0\<rparr>"
  by (simp only: cg_start_A3 cg_iterate_two cg_step_A3_first cg_step_A3_second sum.case)

lemma int_of_double_5_4: "int_of_double (5 / 4) = 1"
  by (simp add: int_of_double_def)

lemma SolveFixedDepthMatrix_solve_A3:
  "SolveFixedDepthMatrix_solve (\<lambda>i. 0) (\<lambda>k. False) (\<lambda>a p. 5 / 4) A3 [1, 1] [0, 0] 5 (1 / 1000) False
     (- 1) 1 False
   = Some (Inr \<lparr>iterations = 2, x_out = [1, 9999 / 10001], warning = False\<rparr>)"
proof -
  let ?s0 = "\<lparr>ii = 0, x_vec = [0, 0], r_vec = [1, 1], d_vec = [1, 1], delta_new = 2\<rparr>"
  let ?s1 = "\<lparr>ii = 1, x_vec = [9999 / 10000, 9999 / 10000], r_vec = [1 / 10000, - (1 / 10000)],
      d_vec = [10001 / 100000000, - (9999 / 100000000)], delta_new = 1 / 50000000\<rparr>"
  let ?s2 = "\<lparr>ii = 2, x_vec = [1, 9999 / 10001], r_vec = [0, 0], d_vec = [0, 0], delta_new = 0\<rparr>"
  let ?eps = "(1 / 1000 / 100000 * real (Rows A3)) * (1 / 1000 / 100000 * real (Rows A3))"
  have t: "(if (1::int) < 1 then 1 else nat 1) = (1::nat)" by simp
  have c0: "cg_continue 5 ?eps 2 ?s0" by (simp add: cg_continue_def Rows_A3)
  have c1: "cg_continue 5 ?eps 2 ?s1" by (simp add: cg_continue_def Rows_A3)
  have c2: "\<not> cg_continue 5 ?eps 2 ?s2" by (simp add: cg_continue_def Rows_A3)
  have "cg_loop (\<lambda>i. 0) (\<lambda>k. False) A3 [1, 1] 5 ?eps 2 1 False ?s0
      = cg_loop (\<lambda>i. 0) (\<lambda>k. False) A3 [1, 1] 5 ?eps 2 1 False ?s1"
    by (rule cg_loop_continue [OF c0 cg_step_A3_first])
  also have "\<dots> = cg_loop (\<lambda>i. 0) (\<lambda>k. False) A3 [1, 1] 5 ?eps 2 1 False ?s2"
    by (rule cg_loop_continue [OF c1 cg_step_A3_second])
  also have "\<dots> = Some (Inr \<lparr>iterations = 2, x_out = [1, 9999 / 10001], warning = False\<rparr>)"
    using cg_loop_stop [OF c2, of "\<lambda>i. 0" "\<lambda>k. False" A3 "[1, 1]" 1 False] by simp
  finally have l: "cg_loop (\<lambda>i. 0) (\<lambda>k. False) A3 [1, 1] 5 ?eps 2 1 False ?s0
      = Some (Inr \<lparr>iterations = 2, x_out = [1, 9999 / 10001], warning = False\<rparr>)" .
  have n: "\<not> (2 :: real) < ?eps" by (simp add: Rows_A3)
  have m: "max (int_of_double (5 / 4)) 5 = 5" by (simp add: int_of_double_5_4)
  have "SolveFixedDepthMatrix_solve (\<lambda>i. 0) (\<lambda>k. False) (\<lambda>a p. 5 / 4) A3 [1, 1] [0, 0] 5 (1 / 1000) False
     (- 1) 1 False
     = cg_loop (\<lambda>i. 0) (\<lambda>k. False) A3 [1, 1] 5 ?eps 2 1 False ?s0"
    by (subst SolveFixedDepthMatrix_solve_cg_loop)
       (simp_all only: t cg_start_A3 cg_state.simps n if_False m, simp_all)
  with l show ?thesis by simp
qed

text \<open>
  The zero matrix with two rows: the first round divides by \<open>dDotQ = 0\<close>, the residual
  is then not a number, the comparison at the head of the next round is false, and
  the count returned is 1.
\<close>

definition A0 :: SparseSymmetricMatrix where
  "A0 = [[], []]"

lemma Rows_A0: "Rows A0 = 2"
  by (simp add: A0_def Rows_def)

lemma SolveFixedDepthMatrix_solve_A0:
  "SolveFixedDepthMatrix_solve (\<lambda>i. 0) (\<lambda>k. False) (\<lambda>a p. 5 / 4) A0 [1, 1] [0, 0] 5 (1 / 1000) False
     (- 1) 1 False
   = Some (Inl (NonFinite 1))"
  by code_simp

text \<open>
  The double that \<open>std::pow(64, 1.0 / 3)\<close> returns is \<open>4 - 2^-51\<close>, and the cast makes it 3.
\<close>

lemma int_of_double_64: "int_of_double (4 - 1 / 2 ^ 51) = 3"
proof -
  have "\<lfloor>4 - 1 / 2 ^ 51 :: real\<rfloor> = 3" by (rule floor_unique) simp_all
  then show ?thesis by (simp add: int_of_double_def)
qed

theorem SolveFixedDepthMatrix_iteration_budget_witness:
  "SolveFixedDepthMatrix_solve (\<lambda>i. 0) (\<lambda>k. False) (\<lambda>a p. 5 / 4) A3 [1, 1] [0, 0] 5 (1 / 1000) False
     (- 1) 1 False
     = Some (Inr \<lparr>iterations = 2, x_out = [1, 9999 / 10001], warning = False\<rparr>)
   \<and> \<bar>5 / 4 - root 3 (real (Rows A3))\<bar> < 1
   \<and> (2 :: int) \<le> max (int_of_double (5 / 4)) 5
   \<and> (2 :: int) \<le> max \<lceil>root 3 (real (Rows A3))\<rceil> 5
   \<and> (\<exists>s. cg_iterate (\<lambda>i. 0) A3 [1, 1] 1 False 2 (cg_start (\<lambda>i. 0) A3 [1, 1] [0, 0] 1 False) = Inr s
          \<and> x_vec s = [1, 9999 / 10001]
          \<and> delta_new s \<le> (1 / 1000 / 100000 * 2) * (1 / 1000 / 100000 * 2)
                * delta_new (cg_start (\<lambda>i. 0) A3 [1, 1] [0, 0] 1 False))
   \<and> (\<exists>sj. cg_iterate (\<lambda>i. 0) A3 [1, 1] 1 False 1 (cg_start (\<lambda>i. 0) A3 [1, 1] [0, 0] 1 False) = Inr sj
          \<and> (1 / 1000 / 100000 * 2) * (1 / 1000 / 100000 * 2)
                * delta_new (cg_start (\<lambda>i. 0) A3 [1, 1] [0, 0] 1 False) < delta_new sj)
   \<and> cg_iterate (\<lambda>i. 0) A3 [1, 1] 1 False 1 (cg_start (\<lambda>i. 0) A3 [1, 1] [0, 0] 1 False)
       = Inr \<lparr>ii = 1, x_vec = [9999 / 10000, 9999 / 10000], r_vec = [1 / 10000, - (1 / 10000)],
              d_vec = [10001 / 100000000, - (9999 / 100000000)], delta_new = 1 / 50000000\<rparr>
   \<and> cg_iterate (\<lambda>i. 0) A3 [1, 1] 1 False 2 (cg_start (\<lambda>i. 0) A3 [1, 1] [0, 0] 1 False)
       = Inr \<lparr>ii = 2, x_vec = [1, 9999 / 10001], r_vec = [0, 0], d_vec = [0, 0], delta_new = 0\<rparr>
   \<and> SolveFixedDepthMatrix_solve (\<lambda>i. 0) (\<lambda>k. False) (\<lambda>a p. 5 / 4) A0 [1, 1] [0, 0] 5 (1 / 1000) False
        (- 1) 1 False = Some (Inl (NonFinite 1))
   \<and> Solve_count (Inl (NonFinite 1)) \<le> max \<lceil>root 3 (real (Rows A0))\<rceil> 5"
proof -
  let ?S0 = "cg_start (\<lambda>i. 0) A3 [1, 1] [0, 0] 1 False"
  let ?res = "\<lparr>iterations = 2, x_out = [1, 9999 / 10001], warning = False\<rparr>"
  have h1: "(- 1 :: int) < 0" by simp
  have r: "1 \<le> root 3 2" "root 3 2 \<le> 2" using root3_2_bounds by blast+
  then have q: "\<bar>5 / 4 - root 3 2\<bar> < 1" by linarith
  then have h2: "\<bar>(\<lambda>a p. 5 / 4) (real (Rows A3)) ITERATION_POWER - root 3 (real (Rows A3))\<bar> < 1"
    by (simp add: Rows_A3)
  have t: "(if (1::int) < 1 then 1 else nat 1) = (1::nat)" by simp
  have m: "max (int_of_double (5 / 4)) 5 = 5" by (simp add: int_of_double_5_4)
  note inst = SolveFixedDepthMatrix_iteration_budget [of "- 1" "\<lambda>a p. 5 / 4" A3 1 "\<lambda>i. 0" "[1, 1]"
      "[0, 0]" False "1 / 1000" 5 "\<lambda>k. False" False, OF h1 h2]
  from inst obtain out where
    o: "SolveFixedDepthMatrix_solve (\<lambda>i. 0) (\<lambda>k. False) (\<lambda>a p. 5 / 4) A3 [1, 1] [0, 0] 5 (1 / 1000) False
          (- 1) 1 False = Some out"
       "Solve_count out \<le> max (int_of_double (5 / 4)) 5"
       "Solve_count out \<le> max \<lceil>root 3 (real (Rows A3))\<rceil> 5"
       "\<forall>res. out = Inr res \<and> \<not> warning res \<longrightarrow>
          (\<exists>s. cg_iterate (\<lambda>i. 0) A3 [1, 1] 1 False (nat (iterations res)) ?S0 = Inr s
               \<and> x_out res = x_vec s
               \<and> (iterations res = 5 \<or> delta_new s \<le> (1 / 1000 / 100000 * 2) * (1 / 1000 / 100000 * 2)
                     * delta_new ?S0))
          \<and> (\<forall>j < nat (iterations res).
                \<exists>sj. cg_iterate (\<lambda>i. 0) A3 [1, 1] 1 False j ?S0 = Inr sj
                  \<and> (1 / 1000 / 100000 * 2) * (1 / 1000 / 100000 * 2) * delta_new ?S0 < delta_new sj)"
    unfolding Let_def t m Rows_A3 by auto
  from o(1) have out: "out = Inr ?res"
    by (simp add: SolveFixedDepthMatrix_solve_A3)
  have n2: "nat (iterations ?res) = 2" by simp
  from o(4) out have
    e: "\<exists>s. cg_iterate (\<lambda>i. 0) A3 [1, 1] 1 False (nat (iterations ?res)) ?S0 = Inr s
               \<and> x_out ?res = x_vec s
               \<and> (iterations ?res = 5 \<or> delta_new s \<le> (1 / 1000 / 100000 * 2) * (1 / 1000 / 100000 * 2)
                     * delta_new ?S0)"
    and a: "\<forall>j < nat (iterations ?res).
                \<exists>sj. cg_iterate (\<lambda>i. 0) A3 [1, 1] 1 False j ?S0 = Inr sj
                  \<and> (1 / 1000 / 100000 * 2) * (1 / 1000 / 100000 * 2) * delta_new ?S0 < delta_new sj"
    by simp_all
  from e have e': "\<exists>s. cg_iterate (\<lambda>i. 0) A3 [1, 1] 1 False 2 ?S0 = Inr s
          \<and> x_vec s = [1, 9999 / 10001]
          \<and> delta_new s \<le> (1 / 1000 / 100000 * 2) * (1 / 1000 / 100000 * 2) * delta_new ?S0"
    unfolding n2 by auto
  have "(1::nat) < nat (iterations ?res)" by simp
  with a have a': "\<exists>sj. cg_iterate (\<lambda>i. 0) A3 [1, 1] 1 False 1 ?S0 = Inr sj
                  \<and> (1 / 1000 / 100000 * 2) * (1 / 1000 / 100000 * 2) * delta_new ?S0 < delta_new sj"
    by blast
  from o(2,3) out have b: "(2 :: int) \<le> max (int_of_double (5 / 4)) 5"
    "(2 :: int) \<le> max \<lceil>root 3 (real (Rows A3))\<rceil> 5"
    by simp_all
  from h2 have h2': "\<bar>5 / 4 - root 3 (real (Rows A3))\<bar> < 1" by simp
  from q have h0: "\<bar>(\<lambda>a p. 5 / 4) (real (Rows A0)) ITERATION_POWER - root 3 (real (Rows A0))\<bar> < 1"
    by (simp add: Rows_A0)
  from SolveFixedDepthMatrix_iteration_budget [of "- 1" "\<lambda>a p. 5 / 4" A0 1 "\<lambda>i. 0" "[1, 1]"
      "[0, 0]" False "1 / 1000" 5 "\<lambda>k. False" False, OF h1 h0]
  have z: "Solve_count (Inl (NonFinite 1)) \<le> max \<lceil>root 3 (real (Rows A0))\<rceil> 5"
    unfolding Let_def SolveFixedDepthMatrix_solve_A0 by blast
  from SolveFixedDepthMatrix_solve_A3 h2' b e' a' cg_iterate_A3_1 cg_iterate_A3_2
    SolveFixedDepthMatrix_solve_A0 z
  show ?thesis by blast
qed

text \<open>
  C2 as stated fails: with the configured accuracy \<open>1/1000\<close>, the matrix
  \<open>diag(1, 10001/9999)\<close>, right-hand side \<open>(1, 1)\<close> and \<open>minIters = 5\<close>, the squared
  residual after the first iteration is \<open>1/50000000\<close>, the initial one is \<open>2\<close>: it is
  below the accuracy times the initial one, and also below the \<open>eps\<close> passed to
  \<open>Solve\<close> times the initial one. The budget of 5 is not used up, the loop goes on
  and the solve returns after two iterations.
\<close>

theorem SolveFixedDepthMatrix_accuracy_counterexample:
  "cg_iterate (\<lambda>i. 0) A3 [1, 1] 1 False 1 (cg_start (\<lambda>i. 0) A3 [1, 1] [0, 0] 1 False)
     = Inr \<lparr>ii = 1, x_vec = [9999 / 10000, 9999 / 10000], r_vec = [1 / 10000, - (1 / 10000)],
            d_vec = [10001 / 100000000, - (9999 / 100000000)], delta_new = 1 / 50000000\<rparr>
   \<and> delta_new (cg_start (\<lambda>i. 0) A3 [1, 1] [0, 0] 1 False) = 2
   \<and> (1 / 50000000 :: real) \<le> 1 / 1000 * 2
   \<and> (1 / 50000000 :: real) \<le> (1 / 1000 / 100000 * real (Rows A3)) * 2
   \<and> (1 :: int) \<noteq> max (int_of_double (5 / 4)) 5
   \<and> SolveFixedDepthMatrix_solve (\<lambda>i. 0) (\<lambda>k. False) (\<lambda>a p. 5 / 4) A3 [1, 1] [0, 0] 5 (1 / 1000) False
        (- 1) 1 False
       = Some (Inr \<lparr>iterations = 2, x_out = [1, 9999 / 10001], warning = False\<rparr>)"
  unfolding cg_iterate_A3_1 SolveFixedDepthMatrix_solve_A3
  unfolding cg_start_A3
  by (simp add: Rows_A3 int_of_double_5_4)

section \<open>Density splatting (MultiGridOctreeData.inl)\<close>

text \<open>
  A \<open>Point3D\<close> is the list of its three coordinates. The 3x3x3 neighbourhood that
  \<open>neighborKey.setNeighbors(node)\<close> returns is a function from the three indices to the
  node there, \<open>None\<close> for a null pointer; \<open>centerAndWidth\<close> and \<open>setNeighbors\<close> belong to
  the octree node class and are taken as given. The channel
  \<open>nodeData.centerWeightContribution[0]\<close> of all nodes is a function from nodes to reals.
\<close>

type_synonym Point3D = "real list"

type_synonym 'n Neighbors3 = "nat \<Rightarrow> nat \<Rightarrow> nat \<Rightarrow> 'n option"

definition SAMPLE_SCALE :: real where
  "SAMPLE_SCALE = 1 / (0.125 * 0.125 + 0.75 * 0.75 + 0.125 * 0.125)"

text \<open>The three kernel values \<open>dx[i][0..2]\<close> along one axis, as the loop over the axes
  leaves them.\<close>

definition splat_dx :: "real \<Rightarrow> real \<Rightarrow> real \<Rightarrow> real list" where
  "splat_dx c p width =
     (let x0 = (c - p - width) / width;
          dx0 = 1.125 + 1.5 * x0 + 0.5 * x0 * x0;
          x1 = (c - p) / width;
          dx1 = 0.75 - x1 * x1;
          dx2 = 1 - dx1 - dx0
      in [dx0 * SAMPLE_SCALE, dx1, dx2])"

definition UpdateWeightContribution ::
  "Point3D \<Rightarrow> real \<Rightarrow> 'n Neighbors3 \<Rightarrow> Point3D \<Rightarrow> real \<Rightarrow> ('n \<Rightarrow> real) \<Rightarrow> ('n \<Rightarrow> real)" where
  "UpdateWeightContribution center width neighbors position weight cwc =
     (let dx = map (\<lambda>i. splat_dx (center ! i) (position ! i) width) [0..<3]
      in fold (\<lambda>i. fold (\<lambda>j. fold (\<lambda>k cw.
           case neighbors i j k of
             None \<Rightarrow> cw
           | Some n \<Rightarrow> cw(n := cw n + dx ! 0 ! i * dx ! 1 ! j * weight * dx ! 2 ! k))
         [0..<3]) [0..<3]) [0..<3] cwc)"

text \<open>The per-axis quadratic B-spline kernel values before any scaling.\<close>

definition kernel :: "real \<Rightarrow> real \<Rightarrow> real \<Rightarrow> real list" where
  "kernel c p width =
     (let x0 = (c - p - width) / width;
          dx0 = 1.125 + 1.5 * x0 + 0.5 * x0 * x0;
          x1 = (c - p) / width;
          dx1 = 0.75 - x1 * x1
      in [dx0, dx1, 1 - dx1 - dx0])"

text \<open>The neighbourhood of the root node: the root itself in the middle, nothing else.\<close>

definition root_neighbors :: "unit Neighbors3" where
  "root_neighbors i j k = (if i = 1 \<and> j = 1 \<and> k = 1 then Some () else None)"

text \<open>
  C6. A point at the centre of the root cell with weight 1: the kernel values are
  \<open>1/8, 3/4, 1/8\<close> on each axis, so the claimed increment of the root's centre weight is
  \<open>1 * (3/4)\<^sup>3 * SAMPLE_SCALE = 27/38\<close>. The code adds \<open>27/64\<close>: only the first of
  the three kernel values of each axis is multiplied by \<open>SAMPLE_SCALE\<close>, and the middle
  entry of the stencil is not scaled at all.
\<close>

theorem UpdateWeightContribution_root_centre:
  "UpdateWeightContribution [1 / 2, 1 / 2, 1 / 2] 1 root_neighbors [1 / 2, 1 / 2, 1 / 2] 1 (\<lambda>n. 0) ()
     = 27 / 64
   \<and> kernel (1 / 2) (1 / 2) 1 = [1 / 8, 3 / 4, 1 / 8]
   \<and> 1 * (kernel (1 / 2) (1 / 2) 1 ! 1 * kernel (1 / 2) (1 / 2) 1 ! 1 * kernel (1 / 2) (1 / 2) 1 ! 1)
        * SAMPLE_SCALE = 27 / 38"
  by code_simp


section \<open>Placing an iso-vertex on an edge (GetRoot)\<close>

text \<open>
  The value of a \<open>Real\<close> or \<open>double\<close> variable: a number, one of the two infinities, or
  not a number. Comparisons are those of the floating-point unit: every comparison
  with \<open>NaN\<close> is false.
\<close>

datatype float_value = Number real | PlusInfinity | MinusInfinity | NaN

fun float_less :: "float_value \<Rightarrow> float_value \<Rightarrow> bool" where
  "float_less (Number a) (Number b) = (a < b)"
| "float_less (Number a) PlusInfinity = True"
| "float_less MinusInfinity (Number b) = True"
| "float_less MinusInfinity PlusInfinity = True"
| "float_less _ _ = False"

fun float_less_eq :: "float_value \<Rightarrow> float_value \<Rightarrow> bool" where
  "float_less_eq (Number a) (Number b) = (a \<le> b)"
| "float_less_eq NaN _ = False"
| "float_less_eq _ NaN = False"
| "float_less_eq MinusInfinity _ = True"
| "float_less_eq _ PlusInfinity = True"
| "float_less_eq _ _ = False"


text \<open>\<open>base + width * a\<close> for numbers \<open>base\<close> and \<open>width\<close>.\<close>

fun float_affine :: "real \<Rightarrow> real \<Rightarrow> float_value \<Rightarrow> float_value" where
  "float_affine base width (Number a) = Number (base + width * a)"
| "float_affine base width PlusInfinity =
     (if 0 < width then PlusInfinity else if width < 0 then MinusInfinity else NaN)"
| "float_affine base width MinusInfinity =
     (if 0 < width then MinusInfinity else if width < 0 then PlusInfinity else NaN)"
| "float_affine base width NaN = NaN"

text \<open>\<open>clamp(v, minVal, maxVal)\<close>: \<open>v < minVal ? minVal : v > maxVal ? maxVal : v\<close>.\<close>

definition clamp :: "float_value \<Rightarrow> real \<Rightarrow> real \<Rightarrow> float_value" where
  "clamp v minVal maxVal =
     (if float_less v (Number minVal) then Number minVal
      else if float_less (Number maxVal) v then Number maxVal else v)"

record RootPlacement =
  averageRoot :: float_value
  position :: "float_value list"
  bad_root_warning :: bool

text \<open>
  The loop over the roots of the polynomial: sum and number of those with
  \<open>roots[i] >= 0 && roots[i] <= 1\<close>.
\<close>

definition count_roots :: "float_value list \<Rightarrow> real \<times> nat" where
  "count_roots roots =
     fold (\<lambda>rt s. if float_less_eq (Number 0) rt \<and> float_less_eq rt (Number 1)
                   then (case rt of Number v \<Rightarrow> (fst s + v, snd s + 1) | _ \<Rightarrow> s) else s)
       roots (0, 0)"


definition place_root :: "float_value \<Rightarrow> Point3D \<Rightarrow> real \<Rightarrow> nat \<Rightarrow> int \<Rightarrow> int \<Rightarrow> RootPlacement" where
  "place_root a c width o_axis i1 i2 =
     (let bad = (float_less a (Number 0) \<or> float_less (Number 1) a);
          a' = (if bad then clamp a 0 1 else a);
          po = float_affine (c ! o_axis - width / 2) width a'
      in \<lparr>averageRoot = a',
          position =
            (if o_axis = 0
             then [po, Number (c ! 1 - width / 2 + width * real_of_int i1),
                   Number (c ! 2 - width / 2 + width * real_of_int i2)]
             else if o_axis = 1
             then [Number (c ! 0 - width / 2 + width * real_of_int i1), po,
                   Number (c ! 2 - width / 2 + width * real_of_int i2)]
             else [Number (c ! 0 - width / 2 + width * real_of_int i1),
                   Number (c ! 1 - width / 2 + width * real_of_int i2), po]),
          bad_root_warning = bad\<rparr>)"


lemma count_roots_bounds:
  "0 \<le> fst (fold (\<lambda>rt s. if float_less_eq (Number 0) rt \<and> float_less_eq rt (Number 1)
                   then (case rt of Number v \<Rightarrow> (fst s + v, snd s + 1) | _ \<Rightarrow> s) else s) roots (a, n))
       - a
   \<and> fst (fold (\<lambda>rt s. if float_less_eq (Number 0) rt \<and> float_less_eq rt (Number 1)
                   then (case rt of Number v \<Rightarrow> (fst s + v, snd s + 1) | _ \<Rightarrow> s) else s) roots (a, n)) - a
       \<le> real (snd (fold (\<lambda>rt s. if float_less_eq (Number 0) rt \<and> float_less_eq rt (Number 1)
                   then (case rt of Number v \<Rightarrow> (fst s + v, snd s + 1) | _ \<Rightarrow> s) else s) roots (a, n)))
          - real n"
proof (induction roots arbitrary: a n)
  case Nil
  then show ?case by simp
next
  case (Cons rt roots)
  show ?case
  proof (cases rt)
    case (Number v)
    show ?thesis
    proof (cases "0 \<le> v \<and> v \<le> 1")
      case True
      with Number Cons [of "a + v" "n + 1"] show ?thesis by simp
    next
      case False
      with Number Cons [of a n] show ?thesis by auto
    qed
  next
    case PlusInfinity
    with Cons [of a n] show ?thesis by simp
  next
    case MinusInfinity
    with Cons [of a n] show ?thesis by simp
  next
    case NaN
    with Cons [of a n] show ?thesis by simp
  qed
qed

lemma count_roots_average:
  "snd (count_roots roots) \<noteq> 0 \<Longrightarrow>
   0 \<le> fst (count_roots roots) / real (snd (count_roots roots))
   \<and> fst (count_roots roots) / real (snd (count_roots roots)) \<le> 1"
  using count_roots_bounds [of roots 0 0] by (simp add: count_roots_def)


lemma place_root_Number:
  "averageRoot (place_root (Number a) c width o_axis i1 i2)
     = Number (if a < 0 then 0 else if 1 < a then 1 else a)
   \<and> bad_root_warning (place_root (Number a) c width o_axis i1 i2) = (a < 0 \<or> 1 < a)"
  by (simp add: place_root_def clamp_def Let_def)

lemma place_root_PlusInfinity:
  "averageRoot (place_root PlusInfinity c width o_axis i1 i2) = Number 1
   \<and> bad_root_warning (place_root PlusInfinity c width o_axis i1 i2)"
  by (simp add: place_root_def clamp_def Let_def)

lemma place_root_MinusInfinity:
  "averageRoot (place_root MinusInfinity c width o_axis i1 i2) = Number 0
   \<and> bad_root_warning (place_root MinusInfinity c width o_axis i1 i2)"
  by (simp add: place_root_def clamp_def Let_def)








section \<open>The iso-value (GetIsoValue)\<close>

datatype BoundaryType = BoundaryTypeNone | BoundaryTypeDirichlet | BoundaryTypeNeumann

text \<open>
  The result of a floating-point division and what is computed from it: a number, an
  infinity (a non-zero number divided by zero) or not a number (zero divided by zero).
\<close>

datatype Real_value = Finite real | Infinite | NotANumber

definition divide_Real :: "real \<Rightarrow> real \<Rightarrow> Real_value" where
  "divide_Real a b = (if b \<noteq> 0 then Finite (a / b) else if a = 0 then NotANumber else Infinite)"

fun minus_Real :: "Real_value \<Rightarrow> real \<Rightarrow> Real_value" where
  "minus_Real (Finite v) r = Finite (v - r)"
| "minus_Real Infinite r = Infinite"
| "minus_Real NotANumber r = NotANumber"

text \<open>
  What \<open>GetIsoValue\<close> reads of the node \<open>sNodes_.treeNodes[i]\<close>: whether it has children,
  the sorted indices of its children, the weight channel
  \<open>centerWeightContribution[OutputDensity ? 1 : 0]\<close>, and, for a leaf, the value that
  \<open>getCenterValue\<close> returns for it (computed from the up-sampled solution and the
  stencils, which the loop below does not change).
\<close>

record IsoNode =
  has_children :: bool
  child_nodeIndex :: "nat \<Rightarrow> nat"
  centerWeightContribution :: real
  center_value :: real

text \<open>The array \<open>centerValues\<close> and the two accumulators \<open>isoValue\<close> and \<open>weightSum\<close>.\<close>

record iso_state =
  centerValues :: "nat \<Rightarrow> real"
  acc_isoValue :: real
  acc_weightSum :: real

definition iso_node_step :: "(nat \<Rightarrow> IsoNode) \<Rightarrow> nat \<Rightarrow> iso_state \<Rightarrow> iso_state" where
  "iso_node_step treeNodes i st =
     (let node = treeNodes i;
          val = (if has_children node
                 then fold (\<lambda>c v. v + centerValues st (child_nodeIndex node c)) [0..<8] 0 / 8
                 else center_value node);
          w = centerWeightContribution node
      in \<lparr>centerValues = (centerValues st)(i := val),
          acc_isoValue = (if w \<noteq> 0 then acc_isoValue st + val * w else acc_isoValue st),
          acc_weightSum = (if w \<noteq> 0 then acc_weightSum st + w else acc_weightSum st)\<rparr>)"

definition GetIsoValue ::
  "(nat \<Rightarrow> nat) \<Rightarrow> (nat \<Rightarrow> IsoNode) \<Rightarrow> nat \<Rightarrow> nat \<Rightarrow> BoundaryType \<Rightarrow> Real_value" where
  "GetIsoValue nodeCount treeNodes minDepth maxDepth boundaryType =
     (let st = fold (\<lambda>d. fold (iso_node_step treeNodes) [nodeCount d..<nodeCount (d + 1)])
                 (rev [minDepth..<maxDepth + 1])
                 \<lparr>centerValues = (\<lambda>i. 0), acc_isoValue = 0, acc_weightSum = 0\<rparr>;
          r = (if boundaryType = BoundaryTypeDirichlet then 0.5 else 0)
      in minus_Real (divide_Real (acc_isoValue st) (acc_weightSum st)) r)"

lemma iso_node_step_zero:
  "centerWeightContribution (treeNodes i) = 0 \<Longrightarrow>
   acc_isoValue (iso_node_step treeNodes i st) = acc_isoValue st
   \<and> acc_weightSum (iso_node_step treeNodes i st) = acc_weightSum st"
  by (simp add: iso_node_step_def Let_def)

lemma iso_nodes_zero:
  "\<forall>i. centerWeightContribution (treeNodes i) = 0 \<Longrightarrow>
   acc_isoValue (fold (iso_node_step treeNodes) is st) = acc_isoValue st
   \<and> acc_weightSum (fold (iso_node_step treeNodes) is st) = acc_weightSum st"
  by (induction "is" arbitrary: st) (simp_all add: iso_node_step_zero)

lemma iso_depths_zero:
  "\<forall>i. centerWeightContribution (treeNodes i) = 0 \<Longrightarrow>
   acc_isoValue (fold (\<lambda>d. fold (iso_node_step treeNodes) [nodeCount d..<nodeCount (d + 1)]) ds st)
     = acc_isoValue st
   \<and> acc_weightSum (fold (\<lambda>d. fold (iso_node_step treeNodes) [nodeCount d..<nodeCount (d + 1)]) ds st)
     = acc_weightSum st"
  by (induction ds arbitrary: st) (simp_all add: iso_nodes_zero)

text \<open>
  C3 (as the code has it). \<open>GetIsoValue\<close> returns \<open>isoValue / weightSum - r\<close> with no test
  of the weight sum. When the weight channel of every node is zero, nothing is
  accumulated, the quotient is zero divided by zero and the result is not a number,
  under every boundary type.
\<close>

theorem GetIsoValue_zero_weights:
  assumes "\<forall>i. centerWeightContribution (treeNodes i) = 0"
  shows "GetIsoValue nodeCount treeNodes minDepth maxDepth boundaryType = NotANumber"
  using iso_depths_zero [OF assms, of nodeCount "rev [minDepth..<maxDepth + 1]"
      "\<lparr>centerValues = (\<lambda>i. 0), acc_isoValue = 0, acc_weightSum = 0\<rparr>"]
  by (simp add: GetIsoValue_def Let_def divide_Real_def)

text \<open>A tree that is a single leaf, with solution value 1 at its centre and no weight.\<close>

definition single_leaf :: "nat \<Rightarrow> IsoNode" where
  "single_leaf i = \<lparr>has_children = False, child_nodeIndex = (\<lambda>c. 0),
                    centerWeightContribution = 0, center_value = 1\<rparr>"

definition single_leaf_count :: "nat \<Rightarrow> nat" where
  "single_leaf_count d = (if d = 0 then 0 else 1)"

theorem GetIsoValue_zero_weights_witness:
  "GetIsoValue single_leaf_count single_leaf 0 0 BoundaryTypeNeumann = NotANumber"
proof -
  have "\<forall>i. centerWeightContribution (single_leaf i) = 0"
    by (simp add: single_leaf_def)
  from GetIsoValue_zero_weights [OF this] show ?thesis .
qed

text \<open>
  C3 as stated fails on the single leaf without weight: the result is neither \<open>0\<close>
  nor, under the Dirichlet boundary type, \<open>0 - 0.5\<close>.
\<close>

theorem GetIsoValue_no_fallback_counterexample:
  "GetIsoValue single_leaf_count single_leaf 0 0 BoundaryTypeNeumann \<noteq> Finite 0
   \<and> GetIsoValue single_leaf_count single_leaf 0 0 BoundaryTypeDirichlet \<noteq> Finite (0 - 0.5)"
  by code_simp


section \<open>The octree and its sorted nodes\<close>

text \<open>
  Modelled from the spec: the octree node class \<open>OctNode\<close> (Octree.h and Octree.inl are
  not among the sources). A node has either eight children or none; a node is
  identified by the child indices on the way from the root to it, its depth is the
  length of that chain, and its parent is the chain without its last index. The
  payload \<open>nodeData\<close> of the nodes is kept in functions from nodes to values.
\<close>

datatype octree = Leaf | Branch "octree list"

type_synonym node = "nat list"

fun wf_octree :: "octree \<Rightarrow> bool" where
  "wf_octree Leaf = True"
| "wf_octree (Branch ks) = (length ks = 8 \<and> list_all wf_octree ks)"

fun subtree :: "octree \<Rightarrow> node \<Rightarrow> octree option" where
  "subtree t [] = Some t"
| "subtree Leaf (c # p) = None"
| "subtree (Branch ks) (c # p) = (if c < length ks then subtree (ks ! c) p else None)"

definition hasChildren :: "octree \<Rightarrow> node \<Rightarrow> bool" where
  "hasChildren t p = (case subtree t p of Some (Branch ks) \<Rightarrow> True | _ \<Rightarrow> False)"

definition child :: "node \<Rightarrow> nat \<Rightarrow> node" where
  "child p c = p @ [c]"

definition depth :: "node \<Rightarrow> nat" where
  "depth p = length p"

definition parent :: "node \<Rightarrow> node" where
  "parent p = butlast p"

fun maxDepth :: "octree \<Rightarrow> nat" where
  "maxDepth Leaf = 0"
| "maxDepth (Branch ks) = Suc (foldr max (map maxDepth ks) 0)"

text \<open>The state of a \<open>SortedTreeNodes\<close> object; both arrays are functions of the index.\<close>

record SortedTreeNodes =
  sorted_maxDepth :: nat
  nodeCount :: "nat \<Rightarrow> nat"
  treeNodes :: "nat \<Rightarrow> node"

text \<open>\<open>treeNodes[nodeCount[d + 1]++] = temp->child(c)\<close> for \<open>c = 0, ..., 7\<close>.\<close>

definition set_child :: "nat \<Rightarrow> node \<Rightarrow> nat \<Rightarrow> SortedTreeNodes \<Rightarrow> SortedTreeNodes" where
  "set_child d temp c s =
     s\<lparr>treeNodes := (treeNodes s)(nodeCount s (d + 1) := child temp c),
       nodeCount := (nodeCount s)(d + 1 := nodeCount s (d + 1) + 1)\<rparr>"

definition set_node :: "octree \<Rightarrow> nat \<Rightarrow> nat \<Rightarrow> SortedTreeNodes \<Rightarrow> SortedTreeNodes" where
  "set_node t d i s =
     (let temp = treeNodes s i
      in if hasChildren t temp then fold (set_child d temp) [0..<8] s else s)"

text \<open>One round of the loop over the depths \<open>d\<close>.\<close>

definition set_depth :: "octree \<Rightarrow> nat \<Rightarrow> SortedTreeNodes \<Rightarrow> SortedTreeNodes" where
  "set_depth t d s =
     fold (set_node t d) [nodeCount s (d - 1)..<nodeCount s d]
       (s\<lparr>nodeCount := (nodeCount s)(d + 1 := nodeCount s d)\<rparr>)"

text \<open>
  \<open>SortedTreeNodes::set(root)\<close>. The arrays are newly allocated, so their contents
  \<open>nc0\<close> and \<open>tn0\<close> before the first assignments are arbitrary; \<open>nodeIndex\<close> is the
  field \<open>nodeData.nodeIndex\<close> of all nodes. The result is the object and the new
  \<open>nodeIndex\<close>.
\<close>

definition set_sorted ::
  "octree \<Rightarrow> (nat \<Rightarrow> nat) \<Rightarrow> (nat \<Rightarrow> node) \<Rightarrow> (node \<Rightarrow> int) \<Rightarrow> SortedTreeNodes \<times> (node \<Rightarrow> int)" where
  "set_sorted t nc0 tn0 nodeIndex =
     (let md = maxDepth t + 1;
          s0 = \<lparr>sorted_maxDepth = md, nodeCount = nc0(0 := 0, 1 := 1), treeNodes = tn0(0 := [])\<rparr>;
          nodeIndex1 = (\<lambda>p. if subtree t p \<noteq> None then - 1 else nodeIndex p);
          s1 = fold (set_depth t) [1..<md] s0;
          nodeIndex2 = fold (\<lambda>i ni. ni(treeNodes s1 i := int i)) [0..<nodeCount s1 md] nodeIndex1
      in (s1, nodeIndex2))"


subsection \<open>The breadth-first enumeration that \<open>set\<close> computes\<close>

definition kids :: "octree \<Rightarrow> node \<Rightarrow> node list" where
  "kids t p = (if hasChildren t p then map (child p) [0..<8] else [])"

fun lev :: "octree \<Rightarrow> nat \<Rightarrow> node list" where
  "lev t 0 = [[]]"
| "lev t (Suc d) = concat (map (kids t) (lev t d))"

fun cnt :: "octree \<Rightarrow> nat \<Rightarrow> nat" where
  "cnt t 0 = 0"
| "cnt t (Suc d) = cnt t d + length (lev t d)"

fun bfs :: "octree \<Rightarrow> nat \<Rightarrow> node list" where
  "bfs t 0 = []"
| "bfs t (Suc d) = bfs t d @ lev t d"

lemma length_bfs [simp]: "length (bfs t d) = cnt t d"
  by (induction d) simp_all

lemma cnt_mono: "d \<le> e \<Longrightarrow> cnt t d \<le> cnt t e"
  by (induction e) (auto simp: le_Suc_eq)

lemma bfs_prefix: "d \<le> e \<Longrightarrow> i < cnt t d \<Longrightarrow> bfs t e ! i = bfs t d ! i"
proof (induction e)
  case 0
  then show ?case by simp
next
  case (Suc e)
  show ?case
  proof (cases "d = Suc e")
    case True
    then show ?thesis by simp
  next
    case False
    with Suc.prems have de: "d \<le> e" by simp
    with Suc.prems have "i < cnt t e" using cnt_mono [OF de, of t] by simp
    with Suc.IH [OF de Suc.prems(2)] show ?thesis by (simp add: nth_append)
  qed
qed

lemma bfs_level:
  "j < e \<Longrightarrow> cnt t j \<le> i \<Longrightarrow> i < cnt t (Suc j) \<Longrightarrow> bfs t e ! i = lev t j ! (i - cnt t j)"
proof -
  assume j: "j < e" and lo: "cnt t j \<le> i" and hi: "i < cnt t (Suc j)"
  from j have "Suc j \<le> e" by simp
  from bfs_prefix [OF this hi] have "bfs t e ! i = bfs t (Suc j) ! i" .
  also have "\<dots> = lev t j ! (i - cnt t j)"
    using lo by (simp add: nth_append)
  finally show ?thesis .
qed

lemma lev_length: "p \<in> set (lev t d) \<Longrightarrow> length p = d"
  by (induction d arbitrary: p) (auto simp: kids_def child_def split: if_splits)

lemma bfs_length: "p \<in> set (bfs t d) \<Longrightarrow> length p < d"
  by (induction d) (auto dest: lev_length simp: less_Suc_eq)

lemma distinct_concat_map:
  assumes "distinct xs" "\<And>x. x \<in> set xs \<Longrightarrow> distinct (f x)"
    "\<And>x y. x \<in> set xs \<Longrightarrow> y \<in> set xs \<Longrightarrow> x \<noteq> y \<Longrightarrow> set (f x) \<inter> set (f y) = {}"
  shows "distinct (concat (map f xs))"
  using assms
proof (induction xs)
  case Nil
  then show ?case by simp
next
  case (Cons x xs)
  have "distinct (concat (map f xs))"
    using Cons.prems by (intro Cons.IH) auto
  moreover have "distinct (f x)" using Cons.prems(2) by simp
  moreover have "set (f x) \<inter> set (f y) = {}" if "y \<in> set xs" for y
    using Cons.prems(1) Cons.prems(3) [of x y] that by auto
  ultimately show ?case by auto
qed

lemma distinct_kids: "distinct (kids t p)"
  by (simp add: kids_def distinct_map inj_on_def child_def)

lemma kids_disjoint: "p \<noteq> q \<Longrightarrow> set (kids t p) \<inter> set (kids t q) = {}"
  by (auto simp: kids_def child_def)

lemma distinct_lev: "distinct (lev t d)"
proof (induction d)
  case 0
  then show ?case by simp
next
  case (Suc d)
  show ?case
    unfolding lev.simps
    by (rule distinct_concat_map) (simp_all add: Suc distinct_kids kids_disjoint)
qed

lemma distinct_bfs: "distinct (bfs t d)"
proof (induction d)
  case 0
  then show ?case by simp
next
  case (Suc d)
  have "set (bfs t d) \<inter> set (lev t d) = {}"
    by (auto dest: bfs_length lev_length)
  with Suc distinct_lev [of t d] show ?case by simp
qed

subsection \<open>The loops of \<open>set\<close> compute it\<close>

text \<open>Appending the nodes \<open>xs\<close> at the cursor \<open>nodeCount[d + 1]\<close>.\<close>

definition put :: "nat \<Rightarrow> node list \<Rightarrow> SortedTreeNodes \<Rightarrow> SortedTreeNodes" where
  "put d xs s =
     s\<lparr>treeNodes := (\<lambda>i. if nodeCount s (d + 1) \<le> i \<and> i < nodeCount s (d + 1) + length xs
                          then xs ! (i - nodeCount s (d + 1)) else treeNodes s i),
       nodeCount := (nodeCount s)(d + 1 := nodeCount s (d + 1) + length xs)\<rparr>"

lemma put_Nil [simp]: "put d [] s = s"
  by (cases s) (auto simp: put_def fun_eq_iff)

lemma put_put: "put d ys (put d xs s) = put d (xs @ ys) s"
  by (auto simp: put_def fun_eq_iff nth_append intro!: SortedTreeNodes.equality)

lemma set_child_put: "set_child d temp c s = put d [child temp c] s"
  by (auto simp: set_child_def put_def fun_eq_iff intro!: SortedTreeNodes.equality)

lemma fold_set_child: "fold (set_child d temp) [0..<n] s = put d (map (child temp) [0..<n]) s"
  by (induction n) (simp_all add: set_child_put put_put)

lemma set_node_put: "set_node t d i s = put d (kids t (treeNodes s i)) s"
  by (simp add: set_node_def kids_def fold_set_child Let_def)

lemma put_treeNodes_below: "i < nodeCount s (d + 1) \<Longrightarrow> treeNodes (put d xs s) i = treeNodes s i"
  by (simp add: put_def)

lemma put_nodeCount: "nodeCount (put d xs s) = (nodeCount s)(d + 1 := nodeCount s (d + 1) + length xs)"
  by (simp add: put_def)

lemma fold_set_node:
  "\<forall>i \<in> set is. i < nodeCount s (d + 1) \<Longrightarrow>
   fold (set_node t d) is s = put d (concat (map (\<lambda>i. kids t (treeNodes s i)) is)) s"
proof (induction "is" arbitrary: s)
  case Nil
  then show ?case by simp
next
  case (Cons i "is")
  let ?s1 = "put d (kids t (treeNodes s i)) s"
  have b: "\<forall>j \<in> set is. j < nodeCount ?s1 (d + 1)"
    using Cons.prems by (auto simp: put_nodeCount)
  have e: "map (\<lambda>j. kids t (treeNodes ?s1 j)) is = map (\<lambda>j. kids t (treeNodes s j)) is"
    using Cons.prems by (intro map_cong) (simp_all add: put_treeNodes_below)
  have "fold (set_node t d) (i # is) s = fold (set_node t d) is ?s1"
    by (simp add: set_node_put)
  also have "\<dots> = put d (concat (map (\<lambda>j. kids t (treeNodes ?s1 j)) is)) ?s1"
    using b by (rule Cons.IH)
  also have "\<dots> = put d (concat (map (\<lambda>j. kids t (treeNodes s j)) (i # is))) s"
    by (simp add: e put_put)
  finally show ?case .
qed

text \<open>The invariant of the loop over the depths.\<close>

definition sorted_upto :: "octree \<Rightarrow> nat \<Rightarrow> SortedTreeNodes \<Rightarrow> bool" where
  "sorted_upto t e s =
     ((\<forall>j \<le> e. nodeCount s j = cnt t j) \<and> (\<forall>i < cnt t e. treeNodes s i = bfs t e ! i))"

lemma map_treeNodes_level:
  assumes "sorted_upto t (Suc d) s"
  shows "map (treeNodes s) [cnt t d..<cnt t (Suc d)] = lev t d"
proof (rule nth_equalityI)
  show "length (map (treeNodes s) [cnt t d..<cnt t (Suc d)]) = length (lev t d)" by simp
next
  fix i assume "i < length (map (treeNodes s) [cnt t d..<cnt t (Suc d)])"
  then have i: "i < length (lev t d)" by simp
  then have "treeNodes s (cnt t d + i) = bfs t (Suc d) ! (cnt t d + i)"
    using assms by (simp add: sorted_upto_def)
  with i show "map (treeNodes s) [cnt t d..<cnt t (Suc d)] ! i = lev t d ! i"
    by (simp add: nth_append)
qed

lemma set_depth_step:
  assumes "sorted_upto t (Suc d) s"
  shows "sorted_upto t (Suc (Suc d)) (set_depth t (Suc d) s)"
proof -
  let ?s0 = "s\<lparr>nodeCount := (nodeCount s)(Suc d + 1 := nodeCount s (Suc d))\<rparr>"
  from assms have nc: "nodeCount s d = cnt t d" "nodeCount s (Suc d) = cnt t (Suc d)"
    by (simp_all add: sorted_upto_def)
  have rd: "\<forall>i \<in> set [cnt t d..<cnt t (Suc d)]. i < nodeCount ?s0 (Suc d + 1)"
    by (simp add: nc)
  have "set_depth t (Suc d) s = fold (set_node t (Suc d)) [cnt t d..<cnt t (Suc d)] ?s0"
    by (simp add: set_depth_def nc)
  also have "\<dots> = put (Suc d) (concat (map (\<lambda>i. kids t (treeNodes ?s0 i)) [cnt t d..<cnt t (Suc d)])) ?s0"
    using rd by (rule fold_set_node)
  also have "concat (map (\<lambda>i. kids t (treeNodes ?s0 i)) [cnt t d..<cnt t (Suc d)])
      = concat (map (kids t) (map (treeNodes s) [cnt t d..<cnt t (Suc d)]))"
    by (simp add: comp_def)
  also have "\<dots> = lev t (Suc d)"
    by (simp only: map_treeNodes_level [OF assms] lev.simps)
  finally have r: "set_depth t (Suc d) s = put (Suc d) (lev t (Suc d)) ?s0" .
  show ?thesis
    unfolding sorted_upto_def
  proof (intro conjI allI impI)
    fix j assume "j \<le> Suc (Suc d)"
    with assms show "nodeCount (set_depth t (Suc d) s) j = cnt t j"
      by (auto simp: r put_def nc sorted_upto_def le_Suc_eq)
  next
    fix i assume i: "i < cnt t (Suc (Suc d))"
    show "treeNodes (set_depth t (Suc d) s) i = bfs t (Suc (Suc d)) ! i"
    proof (cases "i < cnt t (Suc d)")
      case True
      with assms have "treeNodes s i = bfs t (Suc d) ! i" by (simp add: sorted_upto_def)
      moreover have "treeNodes (set_depth t (Suc d) s) i = treeNodes s i"
        unfolding r using True nc(2) by (simp add: put_def)
      moreover have "bfs t (Suc (Suc d)) ! i = bfs t (Suc d) ! i"
        using True by (intro bfs_prefix) simp_all
      ultimately show ?thesis by simp
    next
      case False
      then have lo: "cnt t (Suc d) \<le> i" by simp
      have "treeNodes (set_depth t (Suc d) s) i = lev t (Suc d) ! (i - cnt t (Suc d))"
        unfolding r using lo i nc(2) by (simp add: put_def)
      moreover have "bfs t (Suc (Suc d)) ! i = lev t (Suc d) ! (i - cnt t (Suc d))"
        using lo i by (intro bfs_level) simp_all
      ultimately show ?thesis by simp
    qed
  qed
qed

lemma fold_set_depth:
  assumes "sorted_upto t 1 s"
  shows "sorted_upto t (Suc e) (fold (set_depth t) [1..<Suc e] s)"
proof (induction e)
  case 0
  with assms show ?case by simp
next
  case (Suc e)
  have "fold (set_depth t) [1..<Suc (Suc e)] s
      = set_depth t (Suc e) (fold (set_depth t) [1..<Suc e] s)"
    by simp
  with set_depth_step [OF Suc] show ?case by simp
qed

lemma set_sorted_fst:
  "sorted_upto t (maxDepth t + 1) (fst (set_sorted t nc0 tn0 nodeIndex))"
proof -
  have "sorted_upto t 1 \<lparr>sorted_maxDepth = maxDepth t + 1, nodeCount = nc0(0 := 0, 1 := 1),
      treeNodes = tn0(0 := [])\<rparr>"
    by (simp add: sorted_upto_def le_Suc_eq)
  from fold_set_depth [OF this, of "maxDepth t"] show ?thesis
    by (simp add: set_sorted_def Let_def)
qed

lemma set_sorted_maxDepth:
  "sorted_maxDepth (fst (set_sorted t nc0 tn0 nodeIndex)) = maxDepth t + 1"
proof -
  have a: "sorted_maxDepth (put d xs s) = sorted_maxDepth s" for d xs s
    by (simp add: put_def)
  have b: "sorted_maxDepth (set_depth t d s) = sorted_maxDepth s" for d s
  proof -
    have "sorted_maxDepth (fold (set_node t d) is s') = sorted_maxDepth s'" for "is" s'
      by (induction "is" arbitrary: s') (simp_all add: set_node_put a)
    then show ?thesis by (simp add: set_depth_def)
  qed
  have "sorted_maxDepth (fold (set_depth t) ds s) = sorted_maxDepth s" for ds s
    by (induction ds arbitrary: s) (simp_all add: b)
  then show ?thesis by (simp add: set_sorted_def Let_def)
qed

lemma fold_assign_index:
  "inj_on f {..<n} \<Longrightarrow> i < n \<Longrightarrow> fold (\<lambda>i ni. ni(f i := int i)) [0..<n] ni0 (f i) = int i"
proof (induction n)
  case 0
  then show ?case by simp
next
  case (Suc n)
  show ?case
  proof (cases "i = n")
    case True
    then show ?thesis by simp
  next
    case False
    with Suc.prems have i: "i < n" by simp
    from Suc.prems(1) have inj: "inj_on f {..<n}"
      by (rule inj_on_subset) auto
    from Suc.prems(1) i have "f i \<noteq> f n"
      by (auto simp: inj_on_def)
    with Suc.IH [OF inj i] show ?thesis by simp
  qed
qed

lemma foldr_max_ge: "x \<in> set xs \<Longrightarrow> x \<le> foldr max xs (0::nat)"
  by (induction xs) auto

lemma hasChildren_depth: "hasChildren t p \<Longrightarrow> length p < maxDepth t"
proof (induction p arbitrary: t)
  case Nil
  then show ?case by (cases t) (simp_all add: hasChildren_def)
next
  case (Cons c p)
  then obtain ks where t: "t = Branch ks" and c: "c < length ks"
    by (cases t) (auto simp: hasChildren_def split: if_splits)
  with Cons.prems have "hasChildren (ks ! c) p"
    by (simp add: hasChildren_def)
  from Cons.IH [OF this] have "length p < maxDepth (ks ! c)" .
  also have "maxDepth (ks ! c) \<le> foldr max (map maxDepth ks) 0"
    using c by (intro foldr_max_ge) simp
  finally show ?case by (simp add: t)
qed

lemma level_of_index: "k < cnt t e \<Longrightarrow> \<exists>j < e. cnt t j \<le> k \<and> k < cnt t (Suc j)"
proof (induction e)
  case 0
  then show ?case by simp
next
  case (Suc e)
  show ?case
  proof (cases "k < cnt t e")
    case True
    from Suc.IH [OF this] show ?thesis by (auto simp: less_Suc_eq)
  next
    case False
    with Suc.prems show ?thesis by (intro exI [of _ e]) simp
  qed
qed

lemma cnt_level_unique:
  assumes "cnt t j \<le> k" "k < cnt t (Suc j)" "cnt t d \<le> k" "k < cnt t (Suc d)"
  shows "j = d"
proof (rule ccontr)
  assume "j \<noteq> d"
  then consider "Suc j \<le> d" | "Suc d \<le> j" by linarith
  then show False
  proof cases
    case 1
    from cnt_mono [OF this, of t] assms show False by simp
  next
    case 2
    from cnt_mono [OF this, of t] assms show False by simp
  qed
qed

lemma children_span:
  assumes m: "m < length (lev t d)" and h: "hasChildren t (lev t d ! m)"
  shows "\<exists>k. k + 8 \<le> length (lev t (Suc d))
           \<and> (\<forall>c < 8. lev t (Suc d) ! (k + c) = child (lev t d ! m) c)"
proof -
  let ?k = "length (concat (map (kids t) (take m (lev t d))))"
  have k8: "kids t (lev t d ! m) = map (child (lev t d ! m)) [0..<8]"
    using h by (simp add: kids_def)
  have "lev t (Suc d) = concat (map (kids t) (take m (lev t d) @ lev t d ! m # drop (Suc m) (lev t d)))"
    using id_take_nth_drop [OF m] by simp
  then have split: "lev t (Suc d) = concat (map (kids t) (take m (lev t d)))
      @ kids t (lev t d ! m) @ concat (map (kids t) (drop (Suc m) (lev t d)))"
    by simp
  have "?k + 8 \<le> length (lev t (Suc d))"
    by (subst split) (simp add: k8)
  moreover have "lev t (Suc d) ! (?k + c) = child (lev t d ! m) c" if "c < 8" for c
  proof -
    have "lev t (Suc d) ! (?k + c)
        = (kids t (lev t d ! m) @ concat (map (kids t) (drop (Suc m) (lev t d)))) ! c"
      by (subst split) (simp add: nth_append)
    also have "\<dots> = kids t (lev t d ! m) ! c"
      using that by (simp add: nth_append k8)
    also have "\<dots> = child (lev t d ! m) c"
      using that by (simp add: k8)
    finally show ?thesis .
  qed
  ultimately show ?thesis by blast
qed

subsection \<open>Remapping and restoring the indices\<close>

lemma fold_assign_other:
  "p \<notin> g ` {..<n} \<Longrightarrow> fold (\<lambda>i m. m(g i := h i)) [0..<n] m0 p = m0 p"
  by (induction n) (auto simp: lessThan_Suc)

lemma fold_assign_same:
  assumes "j < n" and "\<forall>i < n. g i = g j \<longrightarrow> h i = h j"
  shows "fold (\<lambda>i m. m(g i := h i)) [0..<n] m0 (g j) = h j"
  using assms
proof (induction n)
  case 0
  then show ?case by simp
next
  case (Suc n)
  have step: "fold (\<lambda>i m. m(g i := h i)) [0..<Suc n] m0
      = (fold (\<lambda>i m. m(g i := h i)) [0..<n] m0)(g n := h n)"
    by simp
  show ?case
  proof (cases "g n = g j")
    case True
    from Suc.prems(2) True have "h n = h j" by blast
    moreover have "((fold (\<lambda>i m. m(g i := h i)) [0..<n] m0)(g n := h n)) (g n) = h n"
      by (rule fun_upd_same)
    ultimately show ?thesis unfolding step True [symmetric] by (simp only:)
  next
    case False
    then have "j \<noteq> n" by blast
    with Suc.prems(1) have j: "j < n" by linarith
    from Suc.prems(2) have "\<forall>i < n. g i = g j \<longrightarrow> h i = h j"
      using less_Suc_eq by blast
    from Suc.IH [OF j this] have ih: "fold (\<lambda>i m. m(g i := h i)) [0..<n] m0 (g j) = h j" .
    from False have "g j \<noteq> g n" by (rule not_sym)
    then have "((fold (\<lambda>i m. m(g i := h i)) [0..<n] m0)(g n := h n)) (g j)
        = fold (\<lambda>i m. m(g i := h i)) [0..<n] m0 (g j)"
      by (rule fun_upd_other)
    with ih show ?thesis unfolding step by (simp only:)
  qed
qed

text \<open>
  \<open>GetRestrictedFixedDepthLaplacian\<close>: the indices of the nodes \<open>treeNodes[entries[i]]\<close>
  are set to \<open>i\<close>, the matrix is built by \<open>GetFixedDepthLaplacianGeneric\<close> (which reads
  the indices and is the parameter \<open>generic\<close>), and the indices are set to
  \<open>entries[i]\<close>. The result is the matrix and the new \<open>nodeIndex\<close>.
\<close>

definition GetRestrictedFixedDepthLaplacian ::
  "((node \<Rightarrow> int) \<Rightarrow> 'm) \<Rightarrow> SortedTreeNodes \<Rightarrow> nat list \<Rightarrow> nat \<Rightarrow> (node \<Rightarrow> int) \<Rightarrow> 'm \<times> (node \<Rightarrow> int)" where
  "GetRestrictedFixedDepthLaplacian generic sNodes entries entryCount nodeIndex =
     (let nodeIndex1 = fold (\<lambda>i ni. ni(treeNodes sNodes (entries ! i) := int i)) [0..<entryCount] nodeIndex;
          matrix = generic nodeIndex1;
          nodeIndex2 = fold (\<lambda>i ni. ni(treeNodes sNodes (entries ! i) := int (entries ! i)))
                         [0..<entryCount] nodeIndex1
      in (matrix, nodeIndex2))"

lemma restricted_restores:
  assumes "\<forall>j < entryCount. nodeIndex (treeNodes sNodes (entries ! j)) = int (entries ! j)"
  shows "snd (GetRestrictedFixedDepthLaplacian generic sNodes entries entryCount nodeIndex) = nodeIndex"
proof
  fix p
  let ?g = "\<lambda>i. treeNodes sNodes (entries ! i)"
  let ?ni1 = "fold (\<lambda>i ni. ni(?g i := int i)) [0..<entryCount] nodeIndex"
  let ?ni2 = "fold (\<lambda>i ni. ni(?g i := int (entries ! i))) [0..<entryCount] ?ni1"
  have r: "snd (GetRestrictedFixedDepthLaplacian generic sNodes entries entryCount nodeIndex) = ?ni2"
    by (simp add: GetRestrictedFixedDepthLaplacian_def Let_def)
  show "snd (GetRestrictedFixedDepthLaplacian generic sNodes entries entryCount nodeIndex) p = nodeIndex p"
  proof (cases "p \<in> ?g ` {..<entryCount}")
    case False
    then have "?ni2 p = ?ni1 p" by (rule fold_assign_other)
    also from False have "\<dots> = nodeIndex p" by (rule fold_assign_other)
    finally show ?thesis by (simp add: r)
  next
    case True
    then obtain j where j: "j < entryCount" and p: "p = ?g j" by auto
    have "\<forall>i < entryCount. ?g i = ?g j \<longrightarrow> int (entries ! i) = int (entries ! j)"
    proof (intro allI impI)
      fix i assume "i < entryCount" and "?g i = ?g j"
      with assms j have "int (entries ! i) = nodeIndex (?g j)" by metis
      with assms j show "int (entries ! i) = int (entries ! j)" by simp
    qed
    from fold_assign_same [OF j this] have "?ni2 (?g j) = int (entries ! j)" .
    with assms j p show ?thesis by (simp add: r)
  qed
qed

subsection \<open>What \<open>set\<close> establishes\<close>

lemma set_sorted_snd:
  assumes "set_sorted t nc0 tn0 nodeIndex = (s, ni)" and "i < cnt t (maxDepth t + 1)"
  shows "ni (bfs t (maxDepth t + 1) ! i) = int i"
proof -
  let ?md = "maxDepth t + 1"
  from assms(1) have s: "s = fst (set_sorted t nc0 tn0 nodeIndex)" by simp
  from set_sorted_fst [of t nc0 tn0 nodeIndex] have su: "sorted_upto t ?md s" by (simp add: s)
  then have nc: "nodeCount s ?md = cnt t ?md" and tn: "\<forall>i < cnt t ?md. treeNodes s i = bfs t ?md ! i"
    by (simp_all add: sorted_upto_def)
  have inj: "inj_on (treeNodes s) {..<cnt t ?md}"
  proof (rule inj_onI)
    fix a b assume "a \<in> {..<cnt t ?md}" "b \<in> {..<cnt t ?md}" "treeNodes s a = treeNodes s b"
    with tn have "bfs t ?md ! a = bfs t ?md ! b" "a < length (bfs t ?md)" "b < length (bfs t ?md)"
      by simp_all
    with distinct_bfs [of t ?md] show "a = b" by (simp add: nth_eq_iff_index_eq)
  qed
  have "ni = fold (\<lambda>i ni. ni(treeNodes s i := int i)) [0..<cnt t ?md]
      (\<lambda>p. if subtree t p \<noteq> None then - 1 else nodeIndex p)"
    using assms(1) nc unfolding s by (simp add: set_sorted_def Let_def)
  with fold_assign_index [OF inj assms(2)] tn assms(2) show ?thesis by simp
qed

lemma set_sorted_state:
  assumes "set_sorted t nc0 tn0 nodeIndex = (s, ni)"
  shows "sorted_maxDepth s = maxDepth t + 1"
    and "\<forall>j \<le> maxDepth t + 1. nodeCount s j = cnt t j"
    and "\<forall>i < cnt t (maxDepth t + 1). treeNodes s i = bfs t (maxDepth t + 1) ! i"
    and "\<forall>i < cnt t (maxDepth t + 1). ni (treeNodes s i) = int i"
proof -
  from assms have s: "s = fst (set_sorted t nc0 tn0 nodeIndex)" by simp
  show "sorted_maxDepth s = maxDepth t + 1"
    unfolding s by (rule set_sorted_maxDepth)
  from set_sorted_fst [of t nc0 tn0 nodeIndex]
  show nc: "\<forall>j \<le> maxDepth t + 1. nodeCount s j = cnt t j"
    and tn: "\<forall>i < cnt t (maxDepth t + 1). treeNodes s i = bfs t (maxDepth t + 1) ! i"
    unfolding s sorted_upto_def by blast+
  show "\<forall>i < cnt t (maxDepth t + 1). ni (treeNodes s i) = int i"
    using set_sorted_snd [OF assms] tn by simp
qed

lemma set_sorted_children:
  assumes st: "set_sorted t nc0 tn0 nodeIndex = (s, ni)"
    and d: "d < sorted_maxDepth s" and lo: "nodeCount s d \<le> i" and hi: "i < nodeCount s (d + 1)"
    and h: "hasChildren t (treeNodes s i)"
  shows "depth (treeNodes s i) = d
     \<and> (\<exists>k. nodeCount s (d + 1) \<le> k \<and> k + 8 \<le> nodeCount s (d + 2)
            \<and> (\<forall>c < 8. treeNodes s (k + c) = child (treeNodes s i) c))"
proof -
  let ?md = "maxDepth t + 1"
  note S = set_sorted_state [OF st]
  from d S(1) have dm: "d < ?md" by simp
  with S(2) have ncd: "nodeCount s d = cnt t d" "nodeCount s (d + 1) = cnt t (Suc d)"
    by simp_all
  from hi ncd have "i < cnt t (Suc d)" by simp
  also have "cnt t (Suc d) \<le> cnt t ?md" using dm by (intro cnt_mono) simp
  finally have i: "i < cnt t ?md" .
  have lv: "bfs t ?md ! i = lev t d ! (i - cnt t d)"
    using dm lo hi ncd by (intro bfs_level) simp_all
  with S(3) i have ti: "treeNodes s i = lev t d ! (i - cnt t d)" by simp
  have m: "i - cnt t d < length (lev t d)"
    using lo hi ncd by simp
  then have "lev t d ! (i - cnt t d) \<in> set (lev t d)" by simp
  from lev_length [OF this] have len: "length (treeNodes s i) = d" by (simp add: ti)
  from hasChildren_depth [OF h] len have d1: "Suc d < ?md" by simp
  with S(2) have ncd2: "nodeCount s (d + 2) = cnt t (Suc (Suc d))" by simp
  from children_span [OF m] h ti obtain k where
    k: "k + 8 \<le> length (lev t (Suc d))"
       "\<forall>c < 8. lev t (Suc d) ! (k + c) = child (treeNodes s i) c"
    by auto
  have "treeNodes s (cnt t (Suc d) + k + c) = child (treeNodes s i) c" if c: "c < 8" for c
  proof -
    have b: "cnt t (Suc d) + k + c < cnt t (Suc (Suc d))" using k(1) c by simp
    also have "cnt t (Suc (Suc d)) \<le> cnt t ?md" using d1 by (intro cnt_mono) simp
    finally have "treeNodes s (cnt t (Suc d) + k + c) = bfs t ?md ! (cnt t (Suc d) + k + c)"
      using S(3) by simp
    also have "\<dots> = lev t (Suc d) ! (cnt t (Suc d) + k + c - cnt t (Suc d))"
      using d1 b by (intro bfs_level) simp_all
    also have "\<dots> = child (treeNodes s i) c" using k(2) c by (simp add: add.assoc)
    finally show ?thesis .
  qed
  moreover have "nodeCount s (d + 1) \<le> cnt t (Suc d) + k" unfolding ncd(2) by simp
  moreover have "cnt t (Suc d) + k + 8 \<le> nodeCount s (d + 2)" unfolding ncd2 using k(1) by simp
  ultimately show ?thesis using len unfolding depth_def by blast
qed

text \<open>
  C1. After \<open>set(root)\<close> every stored node has its position as its index; the eight
  children of a stored node at depth \<open>d\<close> that has children are stored one after the
  other inside the range of depth \<open>d + 1\<close>; and \<open>GetRestrictedFixedDepthLaplacian\<close>, run
  on that state with entries that are sorted indices, returns with every index as it
  was.
\<close>

theorem set_sorted_index_consistency:
  assumes "set_sorted t nc0 tn0 nodeIndex = (s, ni)"
  shows "(\<forall>i < nodeCount s (sorted_maxDepth s). ni (treeNodes s i) = int i)
     \<and> (\<forall>d i. d < sorted_maxDepth s \<and> nodeCount s d \<le> i \<and> i < nodeCount s (d + 1)
              \<and> hasChildren t (treeNodes s i) \<longrightarrow>
            depth (treeNodes s i) = d
            \<and> (\<exists>k. nodeCount s (d + 1) \<le> k \<and> k + 8 \<le> nodeCount s (d + 2)
                   \<and> (\<forall>c < 8. treeNodes s (k + c) = child (treeNodes s i) c)))
     \<and> ((\<forall>j < entryCount. entries ! j < nodeCount s (sorted_maxDepth s)) \<longrightarrow>
          snd (GetRestrictedFixedDepthLaplacian generic s entries entryCount ni) = ni)"
proof (intro conjI allI impI)
  note S = set_sorted_state [OF assms]
  from S(1,2) have total: "nodeCount s (sorted_maxDepth s) = cnt t (maxDepth t + 1)" by simp
  fix i assume "i < nodeCount s (sorted_maxDepth s)"
  with S(4) total show "ni (treeNodes s i) = int i" by simp
next
  fix d i
  assume a: "d < sorted_maxDepth s \<and> nodeCount s d \<le> i \<and> i < nodeCount s (d + 1)
              \<and> hasChildren t (treeNodes s i)"
  from set_sorted_children [OF assms, of d i] a
  show "depth (treeNodes s i) = d"
    and "\<exists>k. nodeCount s (d + 1) \<le> k \<and> k + 8 \<le> nodeCount s (d + 2)
                   \<and> (\<forall>c < 8. treeNodes s (k + c) = child (treeNodes s i) c)"
    by blast+
next
  note S = set_sorted_state [OF assms]
  from S(1,2) have total: "nodeCount s (sorted_maxDepth s) = cnt t (maxDepth t + 1)" by simp
  assume "\<forall>j < entryCount. entries ! j < nodeCount s (sorted_maxDepth s)"
  with S(4) total have "\<forall>j < entryCount. ni (treeNodes s (entries ! j)) = int (entries ! j)"
    by simp
  then show "snd (GetRestrictedFixedDepthLaplacian generic s entries entryCount ni) = ni"
    by (rule restricted_restores)
qed

subsection \<open>Writing a sub-domain solution back (SolveFixedDepthMatrix)\<close>

text \<open>\<open>while(temp->depth() > d) temp = temp->parent();\<close>\<close>

function climb :: "nat \<Rightarrow> node \<Rightarrow> node" where
  "climb d temp = (if depth temp > d then climb d (parent temp) else temp)"
  by pat_completeness auto
termination
  by (relation "measure (\<lambda>(d, temp). length temp)") (auto simp: depth_def parent_def)

declare climb.simps [simp del]

text \<open>
  The loop "Update the solution for all nodes in the sub-tree" that follows the solve
  of the sub-domain of the coarse node \<open>sNodes.treeNodes[i]\<close>: \<open>adjacencies\<close> holds the
  sorted indices of the \<open>adjacencyCount2\<close> collected nodes, \<open>X\<close> is the solution
  \<open>_X\<close> of the sub-domain, \<open>solution\<close> the field \<open>nodeData.solution\<close> of all nodes.
\<close>

definition update_solution ::
  "SortedTreeNodes \<Rightarrow> (node \<Rightarrow> int) \<Rightarrow> nat \<Rightarrow> nat list \<Rightarrow> nat \<Rightarrow> real list \<Rightarrow> (node \<Rightarrow> real)
   \<Rightarrow> (node \<Rightarrow> real)" where
  "update_solution sNodes nodeIndex i adjacencies adjacencyCount2 X solution =
     fold (\<lambda>j sol.
             let temp = climb (depth (treeNodes sNodes i)) (treeNodes sNodes (adjacencies ! j))
             in if nodeIndex temp \<ge> nodeIndex (treeNodes sNodes i)
                then sol(treeNodes sNodes (adjacencies ! j) := X ! j)
                else sol)
          [0..<adjacencyCount2] solution"

lemma climb_take: "climb d p = take d p"
proof (induction d p rule: climb.induct)
  case (1 d temp)
  show ?case
  proof (cases "depth temp > d")
    case True
    then have "take d (butlast temp) = take d temp"
      by (simp add: depth_def butlast_conv_take)
    with 1 True show ?thesis
      by (subst climb.simps) (simp add: parent_def)
  next
    case False
    then show ?thesis
      by (subst climb.simps) (simp add: depth_def)
  qed
qed

lemma lev_butlast: "p \<in> set (lev t (Suc e)) \<Longrightarrow> butlast p \<in> set (lev t e)"
  by (auto simp: kids_def child_def split: if_splits)

lemma lev_take: "p \<in> set (lev t e) \<Longrightarrow> d \<le> e \<Longrightarrow> take d p \<in> set (lev t d)"
proof (induction e arbitrary: p)
  case 0
  then show ?case by simp
next
  case (Suc e)
  show ?case
  proof (cases "d = Suc e")
    case True
    with lev_length [OF Suc.prems(1)] Suc.prems(1) show ?thesis by simp
  next
    case False
    with Suc.prems have de: "d \<le> e" by simp
    from lev_length [OF Suc.prems(1)] de have "take d (butlast p) = take d p"
      by (simp add: butlast_conv_take)
    with Suc.IH [OF lev_butlast [OF Suc.prems(1)] de] show ?thesis by simp
  qed
qed

lemma index_of_level_node:
  assumes "p \<in> set (lev t d)" "d < e"
  shows "\<exists>i. cnt t d \<le> i \<and> i < cnt t (Suc d) \<and> bfs t e ! i = p"
proof -
  from assms(1) obtain m where m: "m < length (lev t d)" "lev t d ! m = p"
    by (auto simp: in_set_conv_nth)
  have "bfs t e ! (cnt t d + m) = lev t d ! (cnt t d + m - cnt t d)"
    using assms(2) m(1) by (intro bfs_level) simp_all
  with m show ?thesis by (intro exI [of _ "cnt t d + m"]) simp
qed

lemma ancestor_index_le:
  assumes st: "set_sorted t nc0 tn0 nodeIndex = (s, ni)"
    and k: "k < nodeCount s (sorted_maxDepth s)"
  shows "ni (climb d (treeNodes s k)) \<le> ni (treeNodes s k)"
proof -
  let ?md = "maxDepth t + 1"
  note S = set_sorted_state [OF st]
  from S(1,2) k have k': "k < cnt t ?md" by simp
  from level_of_index [OF k'] obtain e where
    e: "e < ?md" "cnt t e \<le> k" "k < cnt t (Suc e)" by blast
  have n: "treeNodes s k = lev t e ! (k - cnt t e)"
    using S(3) k' bfs_level [OF e] by simp
  have mem: "treeNodes s k \<in> set (lev t e)"
    unfolding n using e by simp
  from lev_length [OF mem] have len: "length (treeNodes s k) = e" .
  show ?thesis
  proof (cases "d < e")
    case False
    with len show ?thesis by (simp add: climb_take)
  next
    case True
    then have "take d (treeNodes s k) \<in> set (lev t d)"
      by (intro lev_take [OF mem]) simp
    from index_of_level_node [OF this, of ?md] True e(1) obtain i where
      i: "cnt t d \<le> i" "i < cnt t (Suc d)" "bfs t ?md ! i = take d (treeNodes s k)"
      by auto
    have "cnt t (Suc d) \<le> cnt t e" using True by (intro cnt_mono) simp
    with i(2) e(2) have ik: "i < k" by simp
    with k' have "i < cnt t ?md" by simp
    with S(3,4) i(3) have "ni (take d (treeNodes s k)) = int i" by metis
    moreover from S(4) k' have "ni (treeNodes s k) = int k" by simp
    ultimately show ?thesis using ik by (simp add: climb_take)
  qed
qed

lemma fold_guarded_assign:
  "fold (\<lambda>j sol. if G j then sol(g j := v j) else sol) [0..<n] sol0 p \<noteq> sol0 p \<Longrightarrow>
   \<exists>j < n. G j \<and> g j = p"
proof (induction n)
  case 0
  then show ?case by simp
next
  case (Suc n)
  show ?case
  proof (cases "G n \<and> g n = p")
    case True
    then show ?thesis by blast
  next
    case False
    with Suc.prems have "fold (\<lambda>j sol. if G j then sol(g j := v j) else sol) [0..<n] sol0 p \<noteq> sol0 p"
      by (auto split: if_splits)
    from Suc.IH [OF this] show ?thesis using less_Suc_eq by blast
  qed
qed

text \<open>
  C5. With the sorted nodes as \<open>set\<close> left them and adjacencies that are sorted
  indices, the write-back changes the solution of a node only if the sorted index of
  the node is at least that of the coarse root; the solution of every collected node
  with a smaller index is as before.
\<close>

theorem update_solution_frame:
  assumes "set_sorted t nc0 tn0 nodeIndex = (s, ni)"
    and "\<forall>j < adjacencyCount2. adjacencies ! j < nodeCount s (sorted_maxDepth s)"
  shows "(\<forall>n. update_solution s ni i adjacencies adjacencyCount2 X solution n \<noteq> solution n
            \<longrightarrow> ni (treeNodes s i) \<le> ni n)
     \<and> (\<forall>j < adjacencyCount2.
           ni (treeNodes s (adjacencies ! j)) < ni (treeNodes s i) \<longrightarrow>
           update_solution s ni i adjacencies adjacencyCount2 X solution (treeNodes s (adjacencies ! j))
             = solution (treeNodes s (adjacencies ! j)))"
proof -
  let ?G = "\<lambda>j. ni (climb (depth (treeNodes s i)) (treeNodes s (adjacencies ! j)))
                 \<ge> ni (treeNodes s i)"
  have u: "update_solution s ni i adjacencies adjacencyCount2 X solution
      = fold (\<lambda>j sol. if ?G j then sol(treeNodes s (adjacencies ! j) := X ! j) else sol)
          [0..<adjacencyCount2] solution"
    by (simp add: update_solution_def Let_def)
  have main: "ni (treeNodes s i) \<le> ni n"
    if "update_solution s ni i adjacencies adjacencyCount2 X solution n \<noteq> solution n" for n
  proof -
    from that [unfolded u] fold_guarded_assign [of ?G "\<lambda>j. treeNodes s (adjacencies ! j)"
        "\<lambda>j. X ! j" adjacencyCount2 solution n]
    obtain j where j: "j < adjacencyCount2" "?G j" "treeNodes s (adjacencies ! j) = n"
      by blast
    from assms(2) j(1) have "adjacencies ! j < nodeCount s (sorted_maxDepth s)" by simp
    from ancestor_index_le [OF assms(1) this, of "depth (treeNodes s i)"] j(2,3)
    show ?thesis by simp
  qed
  show ?thesis
  proof (intro conjI allI impI)
    fix n assume "update_solution s ni i adjacencies adjacencyCount2 X solution n \<noteq> solution n"
    then show "ni (treeNodes s i) \<le> ni n" by (rule main)
  next
    fix j assume "j < adjacencyCount2"
      and "ni (treeNodes s (adjacencies ! j)) < ni (treeNodes s i)"
    with main [of "treeNodes s (adjacencies ! j)"]
    show "update_solution s ni i adjacencies adjacencyCount2 X solution (treeNodes s (adjacencies ! j))
             = solution (treeNodes s (adjacencies ! j))"
      by fastforce
  qed
qed

lemma update_solution_written:
  assumes "update_solution s ni i adjacencies adjacencyCount2 X solution n \<noteq> solution n"
  shows "\<exists>j < adjacencyCount2. treeNodes s (adjacencies ! j) = n
           \<and> ni (treeNodes s i) \<le> ni (climb (depth (treeNodes s i)) n)"
proof -
  let ?G = "\<lambda>j. ni (climb (depth (treeNodes s i)) (treeNodes s (adjacencies ! j)))
                 \<ge> ni (treeNodes s i)"
  have "update_solution s ni i adjacencies adjacencyCount2 X solution
      = fold (\<lambda>j sol. if ?G j then sol(treeNodes s (adjacencies ! j) := X ! j) else sol)
          [0..<adjacencyCount2] solution"
    by (simp add: update_solution_def Let_def)
  with assms fold_guarded_assign [of ?G "\<lambda>j. treeNodes s (adjacencies ! j)"
        "\<lambda>j. X ! j" adjacencyCount2 solution n]
  show ?thesis by auto
qed

text \<open>A tree of depth 2: of the eight children of the root, the second and the third
  have children.\<close>

definition t2 :: octree where
  "t2 = Branch [Leaf, Branch (replicate 8 Leaf), Branch (replicate 8 Leaf), Leaf, Leaf, Leaf, Leaf, Leaf]"

definition s2 :: SortedTreeNodes where
  "s2 = fst (set_sorted t2 (\<lambda>i. 0) (\<lambda>i. []) (\<lambda>p. 0))"

definition ni2 :: "node \<Rightarrow> int" where
  "ni2 = snd (set_sorted t2 (\<lambda>i. 0) (\<lambda>i. []) (\<lambda>p. 0))"

lemma set_sorted_t2: "set_sorted t2 (\<lambda>i. 0) (\<lambda>i. []) (\<lambda>p. 0) = (s2, ni2)"
  by (simp add: s2_def ni2_def)

lemma s2_total: "nodeCount s2 (sorted_maxDepth s2) = 25"
  by code_simp

lemma s2_counts: "nodeCount s2 1 = 1 \<and> nodeCount s2 2 = 9 \<and> sorted_maxDepth s2 = 3"
  by code_simp

lemma s2_nodes: "treeNodes s2 2 = [1] \<and> treeNodes s2 3 = [2] \<and> treeNodes s2 9 = [1, 0]
    \<and> treeNodes s2 17 = [2, 0] \<and> treeNodes s2 24 = [2, 7]"
  by code_simp

theorem set_sorted_index_consistency_witness:
  "ni2 (treeNodes s2 24) = 24
   \<and> depth (treeNodes s2 3) = 1
   \<and> treeNodes s2 17 = child (treeNodes s2 3) 0 \<and> treeNodes s2 24 = child (treeNodes s2 3) 7
   \<and> snd (GetRestrictedFixedDepthLaplacian (\<lambda>ni. ni [2, 0]) s2 [17, 3] 2 ni2) = ni2
   \<and> fst (GetRestrictedFixedDepthLaplacian (\<lambda>ni. ni [2, 0]) s2 [17, 3] 2 ni2) = 0"
proof -
  note T = set_sorted_index_consistency [OF set_sorted_t2, of 2 "[17, 3]" "\<lambda>ni. ni [2, 0]"]
  have e: "\<forall>j < 2. [17, 3 :: nat] ! j < nodeCount s2 (sorted_maxDepth s2)"
    unfolding s2_total by (simp add: less_Suc_eq numeral_2_eq_2)
  from T have a: "ni2 (treeNodes s2 24) = 24"
    unfolding s2_total by simp
  have h: "1 < sorted_maxDepth s2 \<and> nodeCount s2 1 \<le> 3 \<and> 3 < nodeCount s2 (1 + 1)
      \<and> hasChildren t2 (treeNodes s2 3)"
    by code_simp
  from T e have r: "snd (GetRestrictedFixedDepthLaplacian (\<lambda>ni. ni [2, 0]) s2 [17, 3] 2 ni2) = ni2"
    by blast
  from T have "1 < sorted_maxDepth s2 \<and> nodeCount s2 1 \<le> 3 \<and> 3 < nodeCount s2 (1 + 1)
      \<and> hasChildren t2 (treeNodes s2 3) \<longrightarrow> depth (treeNodes s2 3) = 1"
    by blast
  then have d: "depth (treeNodes s2 3) = 1" using h by (rule mp)
  have c: "treeNodes s2 17 = child (treeNodes s2 3) 0 \<and> treeNodes s2 24 = child (treeNodes s2 3) 7"
    by (simp add: s2_nodes child_def)
  have m: "fst (GetRestrictedFixedDepthLaplacian (\<lambda>ni. ni [2, 0]) s2 [17, 3] 2 ni2) = 0"
    by code_simp
  from a d c r m show ?thesis by simp
qed

lemma update_solution_t2:
  "update_solution s2 ni2 3 [9, 17] 2 [5, 7] (\<lambda>n. 0) (treeNodes s2 17) = 7
   \<and> update_solution s2 ni2 3 [9, 17] 2 [5, 7] (\<lambda>n. 0) (treeNodes s2 9) = 0"
  by code_simp

theorem update_solution_frame_witness:
  "ni2 (treeNodes s2 3) \<le> ni2 (treeNodes s2 17)
   \<and> update_solution s2 ni2 3 [9, 17] 2 [5, 7] (\<lambda>n. 0) (treeNodes s2 17) = 7
   \<and> update_solution s2 ni2 3 [9, 17] 2 [5, 7] (\<lambda>n. 0) (treeNodes s2 9) = 0"
proof -
  have e: "\<forall>j < 2. [9, 17 :: nat] ! j < nodeCount s2 (sorted_maxDepth s2)"
    unfolding s2_total by (simp add: less_Suc_eq numeral_2_eq_2)
  note T = update_solution_frame [OF set_sorted_t2 e, of 3 "[5, 7]" "\<lambda>n. 0"]
  from T update_solution_t2 have "ni2 (treeNodes s2 3) \<le> ni2 (treeNodes s2 17)"
    by (metis zero_neq_numeral)
  with update_solution_t2 show ?thesis by simp
qed


section \<open>Up-sampling and down-sampling\<close>

record UpSampleData =
  start :: nat
  weights :: "real list"

text \<open>The choice of \<open>usData[dd]\<close> from the offset \<open>off[dd]\<close> of a node at depth \<open>depth\<close>.\<close>

definition usData_of :: "BoundaryType \<Rightarrow> nat \<Rightarrow> nat \<Rightarrow> UpSampleData" where
  "usData_of boundaryType dpth off =
     (let cornerValue = (if boundaryType = BoundaryTypeDirichlet then 0.5
                         else if boundaryType = BoundaryTypeNeumann then 1 else 0.75)
      in if off = 0 then \<lparr>start = 1, weights = [cornerValue, 0]\<rparr>
         else if off + 1 = 2 ^ dpth then \<lparr>start = 0, weights = [0, cornerValue]\<rparr>
         else if off mod 2 \<noteq> 0 then \<lparr>start = 1, weights = [0.75, 0.25]\<rparr>
         else \<lparr>start = 0, weights = [0.25, 0.75]\<rparr>)"

text \<open>
  What \<open>UpSampleGeneric\<close> uses of the octree node class, which is not among the
  sources: the offsets that \<open>depthAndOffset\<close> returns for a node, the 3x3x3
  neighbourhood that \<open>getNeighbors3\<close> returns for a node, and the field
  \<open>nodeData.nodeIndex\<close>.
\<close>

record tree_access =
  offset_of :: "node \<Rightarrow> nat list"
  getNeighbors3 :: "node \<Rightarrow> node Neighbors3"
  nodeIndex_of :: "node \<Rightarrow> int"

definition UpSampleGeneric ::
  "tree_access \<Rightarrow> nat \<Rightarrow> SortedTreeNodes \<Rightarrow> BoundaryType
   \<Rightarrow> (nat \<Rightarrow> node \<Rightarrow> UpSampleData list \<Rightarrow> nat list \<Rightarrow> 'a \<Rightarrow> 'a) \<Rightarrow> 'a \<Rightarrow> 'a" where
  "UpSampleGeneric acc dpth sNodes boundaryType func =
     fold (\<lambda>i.
       let usData = map (\<lambda>dd. usData_of boundaryType dpth (offset_of acc (treeNodes sNodes i) ! dd)) [0..<3];
           neighbors = getNeighbors3 acc (parent (treeNodes sNodes i))
       in fold (\<lambda>ii. fold (\<lambda>jj. fold (\<lambda>kk st.
            case neighbors (ii + start (usData ! 0)) (jj + start (usData ! 1)) (kk + start (usData ! 2)) of
              None \<Rightarrow> st
            | Some n \<Rightarrow> if nodeIndex_of acc n \<noteq> - 1 then func i n usData [ii, jj, kk] st else st)
          [0..<2]) [0..<2]) [0..<2])
       [nodeCount sNodes dpth..<nodeCount sNodes (dpth + 1)]"

definition DownSample ::
  "tree_access \<Rightarrow> nat \<Rightarrow> SortedTreeNodes \<Rightarrow> BoundaryType \<Rightarrow> (nat \<Rightarrow> real) \<Rightarrow> (nat \<Rightarrow> real)" where
  "DownSample acc dpth sNodes boundaryType constraints =
     (if dpth = 0 then constraints
      else UpSampleGeneric acc dpth sNodes boundaryType
             (\<lambda>i n usData idxs cs.
                let cx = cs i * weights (usData ! 0) ! (idxs ! 0);
                    cxy = cx * weights (usData ! 1) ! (idxs ! 1);
                    cxyz = cxy * weights (usData ! 2) ! (idxs ! 2)
                in cs(nat (nodeIndex_of acc n) := cs (nat (nodeIndex_of acc n)) + cxyz))
             constraints)"

definition UpSample ::
  "tree_access \<Rightarrow> nat \<Rightarrow> SortedTreeNodes \<Rightarrow> BoundaryType \<Rightarrow> (nat \<Rightarrow> real) \<Rightarrow> (nat \<Rightarrow> real)" where
  "UpSample acc dpth sNodes boundaryType coefficients =
     (if (boundaryType \<noteq> BoundaryTypeNone \<and> dpth = 0) \<or> (boundaryType = BoundaryTypeNone \<and> dpth \<le> 2)
      then coefficients
      else UpSampleGeneric acc dpth sNodes boundaryType
             (\<lambda>i n usData idxs cf.
                let dx = weights (usData ! 0) ! (idxs ! 0);
                    dxy = dx * weights (usData ! 1) ! (idxs ! 1);
                    dxyz = dxy * weights (usData ! 2) ! (idxs ! 2)
                in cf(i := cf i + cf (nat (nodeIndex_of acc n)) * dxyz))
             coefficients)"

subsection \<open>The calls that \<open>UpSampleGeneric\<close> makes\<close>

definition calls_of_node ::
  "tree_access \<Rightarrow> nat \<Rightarrow> SortedTreeNodes \<Rightarrow> BoundaryType \<Rightarrow> nat
   \<Rightarrow> (nat \<times> node \<times> UpSampleData list \<times> nat list) list" where
  "calls_of_node acc dpth sNodes boundaryType i =
     (let usData = map (\<lambda>dd. usData_of boundaryType dpth (offset_of acc (treeNodes sNodes i) ! dd)) [0..<3];
          neighbors = getNeighbors3 acc (parent (treeNodes sNodes i))
      in concat (map (\<lambda>ii. concat (map (\<lambda>jj. concat (map (\<lambda>kk.
           case neighbors (ii + start (usData ! 0)) (jj + start (usData ! 1)) (kk + start (usData ! 2)) of
             None \<Rightarrow> []
           | Some n \<Rightarrow> if nodeIndex_of acc n \<noteq> - 1 then [(i, n, usData, [ii, jj, kk])] else [])
         [0..<2])) [0..<2])) [0..<2]))"

definition calls ::
  "tree_access \<Rightarrow> nat \<Rightarrow> SortedTreeNodes \<Rightarrow> BoundaryType
   \<Rightarrow> (nat \<times> node \<times> UpSampleData list \<times> nat list) list" where
  "calls acc dpth sNodes boundaryType =
     concat (map (calls_of_node acc dpth sNodes boundaryType)
       [nodeCount sNodes dpth..<nodeCount sNodes (dpth + 1)])"

lemma fold_concat_map: "fold f (concat (map g xs)) = fold (\<lambda>x. fold f (g x)) xs"
  by (induction xs) simp_all

lemma UpSampleGeneric_calls:
  "UpSampleGeneric acc dpth sNodes boundaryType func
   = fold (\<lambda>(i, n, usData, idxs). func i n usData idxs) (calls acc dpth sNodes boundaryType)"
proof -
  have inner: "fold (\<lambda>(i, n, usData, idxs). func i n usData idxs)
        (case nb of None \<Rightarrow> [] | Some n \<Rightarrow> if P n then [(i, n, us, ids)] else [])
      = (\<lambda>st. case nb of None \<Rightarrow> st | Some n \<Rightarrow> if P n then func i n us ids st else st)"
    for nb :: "node option" and P i us ids
    by (cases nb) (auto simp: fun_eq_iff)
  show ?thesis
    unfolding UpSampleGeneric_def calls_def calls_of_node_def Let_def fold_concat_map inner
    by (rule refl)
qed

subsection \<open>The two accumulations over the same list of weighted pairs\<close>

definition up_acc :: "nat \<times> nat \<times> real \<Rightarrow> (nat \<Rightarrow> real) \<Rightarrow> (nat \<Rightarrow> real)" where
  "up_acc = (\<lambda>(i, j, w) a. a(i := a i + a j * w))"

definition down_acc :: "nat \<times> nat \<times> real \<Rightarrow> (nat \<Rightarrow> real) \<Rightarrow> (nat \<Rightarrow> real)" where
  "down_acc = (\<lambda>(i, j, w) a. a(j := a j + a i * w))"

definition pairing :: "(nat \<times> nat \<times> real) list \<Rightarrow> (nat \<Rightarrow> real) \<Rightarrow> (nat \<Rightarrow> real) \<Rightarrow> real" where
  "pairing T c x = sum_list (map (\<lambda>(i, j, w). c i * w * x j) T)"

lemma pairing_Cons: "pairing ((i, j, w) # T) c x = c i * w * x j + pairing T c x"
  by (simp add: pairing_def)

lemma pairing_cong_x:
  "\<forall>(i, j, w) \<in> set T. x' j = x j \<Longrightarrow> pairing T c x' = pairing T c x"
  unfolding pairing_def by (induction T) auto

lemma pairing_cong_c:
  "\<forall>(i, j, w) \<in> set T. c' i = c i \<Longrightarrow> pairing T c' x = pairing T c x"
  unfolding pairing_def by (induction T) auto

lemma sum_upd_right:
  fixes c x :: "nat \<Rightarrow> real"
  assumes "finite F" "i \<in> F"
  shows "(\<Sum>k \<in> F. c k * (x(i := y)) k) = (\<Sum>k \<in> F. c k * x k) + c i * (y - x i)"
proof -
  have "(\<Sum>k \<in> F. c k * (x(i := y)) k) = (\<Sum>k \<in> F. c k * x k + (if k = i then c i * (y - x i) else 0))"
    by (intro sum.cong) (auto simp: right_diff_distrib)
  also have "\<dots> = (\<Sum>k \<in> F. c k * x k) + (\<Sum>k \<in> F. if k = i then c i * (y - x i) else 0)"
    by (rule sum.distrib)
  also have "(\<Sum>k \<in> F. if k = i then c i * (y - x i) else 0) = c i * (y - x i)"
    using assms by (simp only: sum.delta if_True)
  finally show ?thesis .
qed

lemma sum_upd_left:
  fixes c x :: "nat \<Rightarrow> real"
  assumes "finite C" "j \<in> C"
  shows "(\<Sum>k \<in> C. (c(j := y)) k * x k) = (\<Sum>k \<in> C. c k * x k) + (y - c j) * x j"
proof -
  have "(\<Sum>k \<in> C. (c(j := y)) k * x k) = (\<Sum>k \<in> C. c k * x k + (if k = j then (y - c j) * x j else 0))"
    by (intro sum.cong) (auto simp: left_diff_distrib)
  also have "\<dots> = (\<Sum>k \<in> C. c k * x k) + (\<Sum>k \<in> C. if k = j then (y - c j) * x j else 0)"
    by (rule sum.distrib)
  also have "(\<Sum>k \<in> C. if k = j then (y - c j) * x j else 0) = (y - c j) * x j"
    using assms by (simp only: sum.delta if_True)
  finally show ?thesis .
qed

lemma up_sum:
  assumes "finite F" "\<forall>(i, j, w) \<in> set T. i \<in> F \<and> j \<notin> F"
  shows "(\<Sum>k \<in> F. c k * fold up_acc T x k) = (\<Sum>k \<in> F. c k * x k) + pairing T c x"
  using assms(2)
proof (induction T arbitrary: x)
  case Nil
  then show ?case by (simp add: pairing_def)
next
  case (Cons t T)
  obtain i j w where t: "t = (i, j, w)" by (cases t)
  with Cons.prems have i: "i \<in> F" and j: "j \<notin> F" and rest: "\<forall>(i, j, w) \<in> set T. i \<in> F \<and> j \<notin> F"
    by simp_all
  let ?x = "x(i := x i + x j * w)"
  have same: "\<forall>(i', j', w') \<in> set T. ?x j' = x j'"
    using rest i by auto
  have "(\<Sum>k \<in> F. c k * fold up_acc (t # T) x k) = (\<Sum>k \<in> F. c k * fold up_acc T ?x k)"
    by (simp add: t up_acc_def)
  also have "\<dots> = (\<Sum>k \<in> F. c k * ?x k) + pairing T c ?x"
    using rest by (rule Cons.IH)
  also have "(\<Sum>k \<in> F. c k * ?x k) = (\<Sum>k \<in> F. c k * x k) + c i * (x j * w)"
    using sum_upd_right [OF assms(1) i, of c x "x i + x j * w"] by simp
  also have "pairing T c ?x = pairing T c x"
    using same by (rule pairing_cong_x)
  finally show ?case by (simp add: t pairing_Cons algebra_simps)
qed

lemma down_sum:
  assumes "finite C" "\<forall>(i, j, w) \<in> set T. j \<in> C \<and> i \<notin> C"
  shows "(\<Sum>k \<in> C. fold down_acc T c k * x k) = (\<Sum>k \<in> C. c k * x k) + pairing T c x"
  using assms(2)
proof (induction T arbitrary: c)
  case Nil
  then show ?case by (simp add: pairing_def)
next
  case (Cons t T)
  obtain i j w where t: "t = (i, j, w)" by (cases t)
  with Cons.prems have j: "j \<in> C" and i: "i \<notin> C" and rest: "\<forall>(i, j, w) \<in> set T. j \<in> C \<and> i \<notin> C"
    by simp_all
  let ?c = "c(j := c j + c i * w)"
  have same: "\<forall>(i', j', w') \<in> set T. ?c i' = c i'"
    using rest j by auto
  have "(\<Sum>k \<in> C. fold down_acc (t # T) c k * x k) = (\<Sum>k \<in> C. fold down_acc T ?c k * x k)"
    by (simp add: t down_acc_def)
  also have "\<dots> = (\<Sum>k \<in> C. ?c k * x k) + pairing T ?c x"
    using rest by (rule Cons.IH)
  also have "(\<Sum>k \<in> C. ?c k * x k) = (\<Sum>k \<in> C. c k * x k) + (c i * w) * x j"
    using sum_upd_left [OF assms(1) j, of c "c j + c i * w" x] by simp
  also have "pairing T ?c x = pairing T c x"
    using same by (rule pairing_cong_c)
  finally show ?case by (simp add: t pairing_Cons algebra_simps)
qed

subsection \<open>Both operators run over the calls of \<open>UpSampleGeneric\<close>\<close>

definition weighted_pair :: "tree_access \<Rightarrow> nat \<times> node \<times> UpSampleData list \<times> nat list \<Rightarrow> nat \<times> nat \<times> real" where
  "weighted_pair acc = (\<lambda>(i, n, usData, idxs).
     (i, nat (nodeIndex_of acc n),
      weights (usData ! 0) ! (idxs ! 0) * weights (usData ! 1) ! (idxs ! 1) * weights (usData ! 2) ! (idxs ! 2)))"

lemma fold_map_comp: "fold f (map g xs) = fold (\<lambda>x. f (g x)) xs"
  by (induction xs) simp_all

lemma DownSample_pairs:
  assumes "dpth \<noteq> 0"
  shows "DownSample acc dpth sNodes boundaryType constraints
   = fold down_acc (map (weighted_pair acc) (calls acc dpth sNodes boundaryType)) constraints"
proof -
  have "(\<lambda>(i, n, usData, idxs) cs.
                let cx = cs i * weights (usData ! 0) ! (idxs ! 0);
                    cxy = cx * weights (usData ! 1) ! (idxs ! 1);
                    cxyz = cxy * weights (usData ! 2) ! (idxs ! 2)
                in cs(nat (nodeIndex_of acc n) := cs (nat (nodeIndex_of acc n)) + cxyz))
      = (\<lambda>t. down_acc (weighted_pair acc t))"
    by (rule ext) (simp add: weighted_pair_def down_acc_def Let_def case_prod_unfold mult.assoc)
  then have "fold down_acc (map (weighted_pair acc) (calls acc dpth sNodes boundaryType)) constraints
      = UpSampleGeneric acc dpth sNodes boundaryType
             (\<lambda>i n usData idxs cs.
                let cx = cs i * weights (usData ! 0) ! (idxs ! 0);
                    cxy = cx * weights (usData ! 1) ! (idxs ! 1);
                    cxyz = cxy * weights (usData ! 2) ! (idxs ! 2)
                in cs(nat (nodeIndex_of acc n) := cs (nat (nodeIndex_of acc n)) + cxyz))
             constraints"
    unfolding UpSampleGeneric_calls fold_map_comp by (simp only:)
  also have "\<dots> = DownSample acc dpth sNodes boundaryType constraints"
    using assms by (simp add: DownSample_def)
  finally show ?thesis by (rule sym)
qed

lemma UpSample_pairs:
  assumes "\<not> ((boundaryType \<noteq> BoundaryTypeNone \<and> dpth = 0) \<or> (boundaryType = BoundaryTypeNone \<and> dpth \<le> 2))"
  shows "UpSample acc dpth sNodes boundaryType coefficients
   = fold up_acc (map (weighted_pair acc) (calls acc dpth sNodes boundaryType)) coefficients"
proof -
  have "(\<lambda>(i, n, usData, idxs) cf.
                let dx = weights (usData ! 0) ! (idxs ! 0);
                    dxy = dx * weights (usData ! 1) ! (idxs ! 1);
                    dxyz = dxy * weights (usData ! 2) ! (idxs ! 2)
                in cf(i := cf i + cf (nat (nodeIndex_of acc n)) * dxyz))
      = (\<lambda>t. up_acc (weighted_pair acc t))"
    by (rule ext) (simp add: weighted_pair_def up_acc_def Let_def case_prod_unfold)
  then have "fold up_acc (map (weighted_pair acc) (calls acc dpth sNodes boundaryType)) coefficients
      = UpSampleGeneric acc dpth sNodes boundaryType
             (\<lambda>i n usData idxs cf.
                let dx = weights (usData ! 0) ! (idxs ! 0);
                    dxy = dx * weights (usData ! 1) ! (idxs ! 1);
                    dxyz = dxy * weights (usData ! 2) ! (idxs ! 2)
                in cf(i := cf i + cf (nat (nodeIndex_of acc n)) * dxyz))
             coefficients"
    unfolding UpSampleGeneric_calls fold_map_comp by (simp only:)
  also have "\<dots> = UpSample acc dpth sNodes boundaryType coefficients"
    by (simp only: UpSample_def if_not_P [OF assms])
  finally show ?thesis by (rule sym)
qed

lemma calls_of_node_fst:
  "(i', n, us, ids) \<in> set (calls_of_node acc dpth sNodes boundaryType i) \<Longrightarrow>
   i' = i \<and> nodeIndex_of acc n \<noteq> - 1
   \<and> (\<exists>a b c. getNeighbors3 acc (parent (treeNodes sNodes i)) a b c = Some n)"
  by (auto simp: calls_of_node_def Let_def split: option.splits if_splits) metis

lemma calls_range:
  assumes "(i, n, us, ids) \<in> set (calls acc dpth sNodes boundaryType)"
  shows "nodeCount sNodes dpth \<le> i \<and> i < nodeCount sNodes (dpth + 1) \<and> nodeIndex_of acc n \<noteq> - 1
     \<and> (\<exists>a b c. getNeighbors3 acc (parent (treeNodes sNodes i)) a b c = Some n)"
proof -
  from assms obtain i0 where i0: "i0 \<in> set [nodeCount sNodes dpth..<nodeCount sNodes (dpth + 1)]"
    and m: "(i, n, us, ids) \<in> set (calls_of_node acc dpth sNodes boundaryType i0)"
    by (auto simp: calls_def)
  from calls_of_node_fst [OF m] i0 show ?thesis by auto
qed

lemma adjoint_increment:
  fixes c x :: "nat \<Rightarrow> real"
  assumes d0: "dpth \<noteq> 0" and g: "boundaryType \<noteq> BoundaryTypeNone \<or> 2 < dpth"
    and range: "\<forall>i n a b e. nodeCount sNodes dpth \<le> i \<and> i < nodeCount sNodes (dpth + 1)
        \<and> getNeighbors3 acc (parent (treeNodes sNodes i)) a b e = Some n \<and> nodeIndex_of acc n \<noteq> - 1
        \<longrightarrow> int (nodeCount sNodes (dpth - 1)) \<le> nodeIndex_of acc n
            \<and> nodeIndex_of acc n < int (nodeCount sNodes dpth)"
  shows "(\<Sum>k = nodeCount sNodes (dpth - 1)..<nodeCount sNodes dpth.
            DownSample acc dpth sNodes boundaryType c k * x k)
         - (\<Sum>k = nodeCount sNodes (dpth - 1)..<nodeCount sNodes dpth. c k * x k)
       = (\<Sum>k = nodeCount sNodes dpth..<nodeCount sNodes (dpth + 1).
            c k * UpSample acc dpth sNodes boundaryType x k)
         - (\<Sum>k = nodeCount sNodes dpth..<nodeCount sNodes (dpth + 1). c k * x k)"
proof -
  let ?C = "{nodeCount sNodes (dpth - 1)..<nodeCount sNodes dpth}"
  let ?F = "{nodeCount sNodes dpth..<nodeCount sNodes (dpth + 1)}"
  let ?T = "map (weighted_pair acc) (calls acc dpth sNodes boundaryType)"
  have mem: "i \<in> ?F \<and> j \<in> ?C" if "(i, j, w) \<in> set ?T" for i j w
  proof -
    from that obtain n us ids where m: "(i, n, us, ids) \<in> set (calls acc dpth sNodes boundaryType)"
      and j: "j = nat (nodeIndex_of acc n)"
      by (auto simp: weighted_pair_def)
    from calls_range [OF m] obtain a b e where
      r: "nodeCount sNodes dpth \<le> i" "i < nodeCount sNodes (dpth + 1)" "nodeIndex_of acc n \<noteq> - 1"
         "getNeighbors3 acc (parent (treeNodes sNodes i)) a b e = Some n"
      by blast
    with range have "int (nodeCount sNodes (dpth - 1)) \<le> nodeIndex_of acc n
        \<and> nodeIndex_of acc n < int (nodeCount sNodes dpth)"
      by blast
    then have "nodeCount sNodes (dpth - 1) \<le> nat (nodeIndex_of acc n)"
      "nat (nodeIndex_of acc n) < nodeCount sNodes dpth"
      by linarith+
    with r(1,2) j show ?thesis by simp
  qed
  have F: "\<forall>(i, j, w) \<in> set ?T. i \<in> ?F \<and> j \<notin> ?F"
    using mem by fastforce
  have C: "\<forall>(i, j, w) \<in> set ?T. j \<in> ?C \<and> i \<notin> ?C"
    using mem by fastforce
  have ng: "\<not> ((boundaryType \<noteq> BoundaryTypeNone \<and> dpth = 0) \<or> (boundaryType = BoundaryTypeNone \<and> dpth \<le> 2))"
    using d0 g by auto
  have "(\<Sum>k \<in> ?C. DownSample acc dpth sNodes boundaryType c k * x k)
      = (\<Sum>k \<in> ?C. c k * x k) + pairing ?T c x"
    unfolding DownSample_pairs [OF d0] by (rule down_sum [OF _ C]) simp
  moreover have "(\<Sum>k \<in> ?F. c k * UpSample acc dpth sNodes boundaryType x k)
      = (\<Sum>k \<in> ?F. c k * x k) + pairing ?T c x"
    unfolding UpSample_pairs [OF ng] by (rule up_sum [OF _ F]) simp
  ultimately show ?thesis by simp
qed

subsection \<open>Offsets and neighbours in the octree\<close>

text \<open>
  Modelled from the spec: \<open>OctNode::depthAndOffset\<close> and
  \<open>NeighborKey3::getNeighbors3\<close> (Octree.inl is not among the sources). The position
  of a node is determined by its depth and its integer offset in \<open>[0, 2^d)\<close> on each
  axis; bit \<open>0\<close>, \<open>1\<close>, \<open>2\<close> of a child index is the half of the parent cell along
  \<open>x\<close>, \<open>y\<close>, \<open>z\<close>; entry \<open>[a][b][e]\<close> of the neighbourhood of a node is the node of the
  same depth whose offset differs by \<open>(a - 1, b - 1, e - 1)\<close>, if the tree has it.
\<close>

definition FactorCornerIndex :: "nat \<Rightarrow> nat list" where
  "FactorCornerIndex idx = [idx mod 2, (idx div 2) mod 2, (idx div 4) mod 2]"

definition depthAndOffset :: "node \<Rightarrow> nat \<times> nat list" where
  "depthAndOffset p =
     (length p, fold (\<lambda>idx off. map (\<lambda>dd. 2 * off ! dd + FactorCornerIndex idx ! dd) [0..<3]) p [0, 0, 0])"

definition node_at :: "nat \<Rightarrow> nat list \<Rightarrow> node" where
  "node_at d off =
     map (\<lambda>l. ((off ! 0) div 2 ^ (d - 1 - l)) mod 2
              + 2 * (((off ! 1) div 2 ^ (d - 1 - l)) mod 2)
              + 4 * (((off ! 2) div 2 ^ (d - 1 - l)) mod 2)) [0..<d]"

definition tree_getNeighbors3 :: "octree \<Rightarrow> node \<Rightarrow> node Neighbors3" where
  "tree_getNeighbors3 t p a b e =
     (let d = fst (depthAndOffset p);
          off = snd (depthAndOffset p);
          o3 = [int (off ! 0) + int a - 1, int (off ! 1) + int b - 1, int (off ! 2) + int e - 1]
      in if list_all (\<lambda>v. 0 \<le> v \<and> v < 2 ^ d) o3 \<and> subtree t (node_at d (map nat o3)) \<noteq> None
         then Some (node_at d (map nat o3)) else None)"

definition tree_access_of :: "octree \<Rightarrow> (node \<Rightarrow> int) \<Rightarrow> tree_access" where
  "tree_access_of t nodeIndex =
     \<lparr>offset_of = (\<lambda>p. snd (depthAndOffset p)), getNeighbors3 = tree_getNeighbors3 t,
      nodeIndex_of = nodeIndex\<rparr>"

lemma tree_getNeighbors3_node:
  "tree_getNeighbors3 t p a b e = Some n \<Longrightarrow> subtree t n \<noteq> None \<and> length n = length p"
  by (auto simp: tree_getNeighbors3_def Let_def node_at_def depthAndOffset_def split: if_splits)

lemma subtree_append:
  "subtree t (p @ q) = (case subtree t p of None \<Rightarrow> None | Some u \<Rightarrow> subtree u q)"
proof (induction p arbitrary: t)
  case Nil
  then show ?case by simp
next
  case (Cons a p)
  then show ?case by (cases t) simp_all
qed

lemma wf_subtree: "wf_octree t \<Longrightarrow> subtree t p = Some u \<Longrightarrow> wf_octree u"
proof (induction p arbitrary: t)
  case Nil
  then show ?case by simp
next
  case (Cons a p)
  then obtain ks where t: "t = Branch ks" and a: "a < length ks" and s: "subtree (ks ! a) p = Some u"
    by (cases t) (auto split: if_splits)
  from Cons.prems(1) t a have "wf_octree (ks ! a)"
    by (simp add: list_all_length)
  from Cons.IH [OF this s] show ?case .
qed

lemma node_in_level:
  assumes "wf_octree t" "subtree t q \<noteq> None"
  shows "q \<in> set (lev t (length q))"
  using assms(2)
proof (induction q rule: rev_induct)
  case Nil
  then show ?case by simp
next
  case (snoc a q)
  from snoc.prems obtain u where u: "subtree t q = Some u" and s: "subtree u [a] \<noteq> None"
    by (auto simp: subtree_append split: option.splits)
  from s obtain ks where ks: "u = Branch ks" and a: "a < length ks"
    by (cases u) (auto split: if_splits)
  from wf_subtree [OF assms(1) u] ks have "length ks = 8" by simp
  with a have a8: "a < 8" by simp
  from u ks have h: "hasChildren t q" by (simp add: hasChildren_def)
  from snoc.IH u have "q \<in> set (lev t (length q))" by simp
  moreover from h a8 have "q @ [a] \<in> set (kids t q)"
    by (simp add: kids_def child_def)
  ultimately show ?case by auto
qed

lemma tree_access_range:
  assumes st: "set_sorted t nc0 tn0 nodeIndex = (s, ni)" and wf: "wf_octree t"
    and d: "dpth \<noteq> 0" "dpth < sorted_maxDepth s"
  shows "\<forall>i n a b e. nodeCount s dpth \<le> i \<and> i < nodeCount s (dpth + 1)
        \<and> getNeighbors3 (tree_access_of t ni) (parent (treeNodes s i)) a b e = Some n
        \<and> nodeIndex_of (tree_access_of t ni) n \<noteq> - 1
        \<longrightarrow> int (nodeCount s (dpth - 1)) \<le> nodeIndex_of (tree_access_of t ni) n
            \<and> nodeIndex_of (tree_access_of t ni) n < int (nodeCount s dpth)"
proof (intro allI impI)
  fix i n a b e
  assume h: "nodeCount s dpth \<le> i \<and> i < nodeCount s (dpth + 1)
        \<and> getNeighbors3 (tree_access_of t ni) (parent (treeNodes s i)) a b e = Some n
        \<and> nodeIndex_of (tree_access_of t ni) n \<noteq> - 1"
  let ?md = "maxDepth t + 1"
  note S = set_sorted_state [OF st]
  from d S(1) have dm: "dpth < ?md" by simp
  with S(2) have nc: "nodeCount s dpth = cnt t dpth" "nodeCount s (dpth + 1) = cnt t (Suc dpth)"
    "nodeCount s (dpth - 1) = cnt t (dpth - 1)"
    by simp_all
  from h nc have i: "cnt t dpth \<le> i" "i < cnt t (Suc dpth)" by simp_all
  have "cnt t (Suc dpth) \<le> cnt t ?md" using dm by (intro cnt_mono) simp
  with i have i': "i < cnt t ?md" by simp
  have "treeNodes s i = lev t dpth ! (i - cnt t dpth)"
    using S(3) i' bfs_level [OF dm i] by simp
  moreover have "i - cnt t dpth < length (lev t dpth)" using i by simp
  ultimately have "treeNodes s i \<in> set (lev t dpth)" by simp
  from lev_length [OF this] have len: "length (treeNodes s i) = dpth" .
  from h have nb: "tree_getNeighbors3 t (parent (treeNodes s i)) a b e = Some n"
    by (simp add: tree_access_of_def)
  from tree_getNeighbors3_node [OF nb] len have n: "subtree t n \<noteq> None" "length n = dpth - 1"
    by (simp_all add: parent_def)
  from node_in_level [OF wf n(1)] n(2) have "n \<in> set (lev t (dpth - 1))" by simp
  moreover have "dpth - 1 < ?md" using dm by simp
  ultimately have "\<exists>j. cnt t (dpth - 1) \<le> j \<and> j < cnt t (Suc (dpth - 1)) \<and> bfs t ?md ! j = n"
    by (rule index_of_level_node)
  then obtain j where
    j: "cnt t (dpth - 1) \<le> j" "j < cnt t (Suc (dpth - 1))" "bfs t ?md ! j = n"
    by blast
  from d(1) have sd: "Suc (dpth - 1) = dpth" by simp
  have "cnt t dpth \<le> cnt t ?md" using dm by (intro cnt_mono) simp
  with j(2) sd have "j < cnt t ?md" by simp
  with S(3,4) j(3) have "ni n = int j" by metis
  with j(1,2) sd nc show "int (nodeCount s (dpth - 1)) \<le> nodeIndex_of (tree_access_of t ni) n
            \<and> nodeIndex_of (tree_access_of t ni) n < int (nodeCount s dpth)"
    by (simp add: tree_access_of_def)
qed


text \<open>The inner product of two vectors over the sorted indices \<open>lo, ..., hi - 1\<close>.\<close>

definition inner_range :: "nat \<Rightarrow> nat \<Rightarrow> (nat \<Rightarrow> real) \<Rightarrow> (nat \<Rightarrow> real) \<Rightarrow> real" where
  "inner_range lo hi f g = (\<Sum>k = lo..<hi. f k * g k)"

text \<open>
  C4 (as the code has it). Outside the depths at which \<open>UpSample\<close> returns at once
  (depth 0, and depths 1 and 2 when there is no boundary), and when the neighbours of
  the parents of the depth-\<open>dpth\<close> nodes carry indices of depth \<open>dpth - 1\<close>,
  down-sampling a constraint vector \<open>c\<close> over the depth-\<open>dpth\<close> nodes and up-sampling a
  coefficient vector \<open>x\<close> over the depth-\<open>(dpth - 1)\<close> nodes are transposes: the inner
  product of \<open>DownSample c\<close> with \<open>x\<close> over the coarse nodes is that of \<open>c\<close> with
  \<open>UpSample x\<close> over the fine nodes.
\<close>

theorem UpSample_DownSample_adjoint:
  fixes c x :: "nat \<Rightarrow> real"
  assumes "dpth \<noteq> 0" and "boundaryType \<noteq> BoundaryTypeNone \<or> 2 < dpth"
    and "\<forall>i n a b e. nodeCount sNodes dpth \<le> i \<and> i < nodeCount sNodes (dpth + 1)
        \<and> getNeighbors3 acc (parent (treeNodes sNodes i)) a b e = Some n \<and> nodeIndex_of acc n \<noteq> - 1
        \<longrightarrow> int (nodeCount sNodes (dpth - 1)) \<le> nodeIndex_of acc n
            \<and> nodeIndex_of acc n < int (nodeCount sNodes dpth)"
    and "\<forall>k. nodeCount sNodes (dpth - 1) \<le> k \<and> k < nodeCount sNodes dpth \<longrightarrow> c k = 0"
    and "\<forall>k. nodeCount sNodes dpth \<le> k \<and> k < nodeCount sNodes (dpth + 1) \<longrightarrow> x k = 0"
  shows "inner_range (nodeCount sNodes (dpth - 1)) (nodeCount sNodes dpth)
           (DownSample acc dpth sNodes boundaryType c) x
       = inner_range (nodeCount sNodes dpth) (nodeCount sNodes (dpth + 1))
           c (UpSample acc dpth sNodes boundaryType x)"
proof -
  have "(\<Sum>k = nodeCount sNodes (dpth - 1)..<nodeCount sNodes dpth. c k * x k) = 0"
    using assms(4) by (intro sum.neutral) simp
  moreover have "(\<Sum>k = nodeCount sNodes dpth..<nodeCount sNodes (dpth + 1). c k * x k) = 0"
    using assms(5) by (intro sum.neutral) simp
  ultimately show ?thesis
    unfolding inner_range_def
    using adjoint_increment [OF assms(1,2,3), of c x] by simp
qed

definition acc2 :: tree_access where
  "acc2 = tree_access_of t2 ni2"

definition c2 :: "nat \<Rightarrow> real" where
  "c2 k = (if 9 \<le> k \<and> k < 25 then real k else 0)"

definition x2 :: "nat \<Rightarrow> real" where
  "x2 k = (if 1 \<le> k \<and> k < 9 then real k else 0)"

lemma wf_t2: "wf_octree t2"
  by code_simp

theorem UpSample_DownSample_adjoint_witness:
  "inner_range (nodeCount s2 1) (nodeCount s2 2) (DownSample acc2 2 s2 BoundaryTypeNeumann c2) x2
   = inner_range (nodeCount s2 2) (nodeCount s2 3) c2 (UpSample acc2 2 s2 BoundaryTypeNeumann x2)"
proof -
  have n: "nodeCount s2 1 = 1" "nodeCount s2 2 = 9" "nodeCount s2 3 = 25" "sorted_maxDepth s2 = 3"
    by code_simp+
  have d: "(2::nat) \<noteq> 0" "2 < sorted_maxDepth s2" by (simp_all add: n)
  have b: "BoundaryTypeNeumann \<noteq> BoundaryTypeNone \<or> (2::nat) < 2" by simp
  note r = tree_access_range [OF set_sorted_t2 wf_t2 d, folded acc2_def]
  have zc: "\<forall>k. nodeCount s2 (2 - 1) \<le> k \<and> k < nodeCount s2 2 \<longrightarrow> c2 k = 0"
    by (simp add: n c2_def)
  have zx: "\<forall>k. nodeCount s2 2 \<le> k \<and> k < nodeCount s2 (2 + 1) \<longrightarrow> x2 k = 0"
    by (simp add: n x2_def)
  from UpSample_DownSample_adjoint [OF d(1) b r zc zx] show ?thesis by simp
qed

text \<open>
  The full tree of depth 2 as \<open>set\<close> enumerates it: the root, its eight children at
  the indices 1 to 8, their children at the indices 9 to 72.
\<close>

definition t_full :: octree where
  "t_full = Branch (replicate 8 (Branch (replicate 8 Leaf)))"

definition sorted_full :: SortedTreeNodes where
  "sorted_full =
     \<lparr>sorted_maxDepth = 3,
      nodeCount = (\<lambda>d. [0, 1, 9, 73] ! d),
      treeNodes = (\<lambda>i. if i = 0 then [] else if i < 9 then [i - 1] else [(i - 9) div 8, (i - 9) mod 8])\<rparr>"

definition nodeIndex_full :: "node \<Rightarrow> int" where
  "nodeIndex_full p = (case p of [] \<Rightarrow> 0 | [a] \<Rightarrow> 1 + int a | [a, b] \<Rightarrow> 9 + 8 * int a + int b | _ \<Rightarrow> - 1)"

definition acc_full :: tree_access where
  "acc_full = tree_access_of t_full nodeIndex_full"

text \<open>The constraint vector that is 1 on the depth-2 nodes and the coefficient vector
  that is 1 on the depth-1 nodes.\<close>

definition c_full :: "nat \<Rightarrow> real" where
  "c_full k = (if 9 \<le> k \<and> k < 73 then 1 else 0)"

definition x_full :: "nat \<Rightarrow> real" where
  "x_full k = (if 1 \<le> k \<and> k < 9 then 1 else 0)"

lemma sorted_full_set:
  "map (nodeCount (fst (set_sorted t_full (\<lambda>i. 0) (\<lambda>i. []) (\<lambda>p. 0)))) [0..<4]
     = map (nodeCount sorted_full) [0..<4]
   \<and> map (treeNodes (fst (set_sorted t_full (\<lambda>i. 0) (\<lambda>i. []) (\<lambda>p. 0)))) [0..<73]
     = map (treeNodes sorted_full) [0..<73]"
  by code_simp

lemma UpSample_full:
  "inner_range (nodeCount sorted_full 2) (nodeCount sorted_full 3)
      c_full (UpSample acc_full 2 sorted_full BoundaryTypeNone x_full) = 0"
  by code_simp

lemma pairs_full_range:
  "list_all (\<lambda>(i, j, w). 1 \<le> j \<and> j < 9 \<and> 9 \<le> i)
     (map (weighted_pair acc_full) (calls acc_full 2 sorted_full BoundaryTypeNone))"
  by code_simp

lemma pairing_full:
  "pairing (map (weighted_pair acc_full) (calls acc_full 2 sorted_full BoundaryTypeNone)) c_full x_full
   = 343 / 8"
  by code_simp

lemma DownSample_full:
  "inner_range (nodeCount sorted_full 1) (nodeCount sorted_full 2)
      (DownSample acc_full 2 sorted_full BoundaryTypeNone c_full) x_full = 343 / 8"
proof -
  let ?T = "map (weighted_pair acc_full) (calls acc_full 2 sorted_full BoundaryTypeNone)"
  have n: "nodeCount sorted_full 1 = 1" "nodeCount sorted_full 2 = 9"
    by (simp_all add: sorted_full_def)
  have C: "\<forall>(i, j, w) \<in> set ?T. j \<in> {1..<9} \<and> i \<notin> {1..<9}"
    using pairs_full_range by (auto simp: list_all_iff)
  have "(\<Sum>k \<in> {1..<9}. fold down_acc ?T c_full k * x_full k)
      = (\<Sum>k \<in> {1..<9}. c_full k * x_full k) + pairing ?T c_full x_full"
    by (rule down_sum [OF _ C]) simp
  also have "(\<Sum>k \<in> {1..<9}. c_full k * x_full k) = 0"
    by (intro sum.neutral) (simp add: c_full_def)
  finally show ?thesis
    unfolding inner_range_def n DownSample_pairs [of 2, simplified] pairing_full by simp
qed

text \<open>
  C4 as stated fails without a boundary at the depth step 1 to 2: \<open>DownSample\<close>
  accumulates the depth-2 constraints into the depth-1 nodes, \<open>UpSample\<close> returns its
  argument as it is, and the two inner products are \<open>343/8\<close> and \<open>0\<close>.
\<close>

theorem UpSample_DownSample_None_counterexample:
  "inner_range (nodeCount sorted_full 1) (nodeCount sorted_full 2)
      (DownSample acc_full 2 sorted_full BoundaryTypeNone c_full) x_full = 343 / 8
   \<and> inner_range (nodeCount sorted_full 2) (nodeCount sorted_full 3)
      c_full (UpSample acc_full 2 sorted_full BoundaryTypeNone x_full) = 0"
  using DownSample_full UpSample_full by (rule conjI)

end
